theory Spec2Isabelle
  imports Main "HOL-Library.Word"
begin

unbundle bit_operations_syntax

section \<open>The source checker: data\<close>

text \<open>
  The program reads a file byte by byte into a \<open>char\<close>, which is a signed 8-bit type on
  the platforms the source comment speaks of. A byte is an 8-bit word; \<open>sint\<close> is its
  value after the integral promotion of C++, \<open>unat\<close> its value after the cast to
  \<open>unsigned char\<close>.
\<close>

type_synonym byte = "8 word"

text \<open>
  The C++ type \<open>int\<close> of the counters: a 32-bit word in two's complement, read by
  \<open>sint\<close>. An increment beyond \<open>2^31 - 1\<close> is undefined in C++; the compiled program wraps
  around, and so does \<open>+\<close> on words.
\<close>

type_synonym cint = "32 word"

definition LF :: byte where "LF = 0x0A"
definition CR :: byte where "CR = 0x0D"
definition TAB :: byte where "TAB = 0x09"

text \<open>
  \<open>enum State\<close>: a C++ enumeration is an integer type whose enumerators are numbered
  from 0 in the order of their declaration. The state variable is kept as that integer,
  so that the \<open>default:\<close> branch of the switch over it, which holds \<open>assert(0)\<close>, is a
  branch of the model too.
\<close>

type_synonym State = int

definition S_NORMAL :: State where "S_NORMAL = 0"
definition S_BOL :: State where "S_BOL = 1"
definition S_CR :: State where "S_CR = 2"
definition S_UTF_EXPECT3 :: State where "S_UTF_EXPECT3 = 3"
definition S_UTF_EXPECT2 :: State where "S_UTF_EXPECT2 = 4"
definition S_UTF_EXPECT1 :: State where "S_UTF_EXPECT1 = 5"

lemmas State_defs =
  S_NORMAL_def S_BOL_def S_CR_def S_UTF_EXPECT3_def S_UTF_EXPECT2_def S_UTF_EXPECT1_def

text \<open>
  What the process writes. \<open>Checking f\<close> is the line \<open>Checking f\<close> on standard output,
  \<open>ErrorLine f n msg\<close> is the line \<open>f(n) [ERROR] :msg\<close> on standard output, and
  \<open>Perror f\<close> is the line that \<open>perror(f)\<close> writes on standard error.
\<close>

datatype printed = Checking string | ErrorLine string int string | Perror string

text \<open>
  The local variables of \<open>checkOneFile\<close> that the loop updates, together with the lines
  written so far. Lemma \<open>scanLoop_counters_bounded\<close> below shows that no counter exceeds
  the number of bytes of the file plus one, so that no counter wraps around on a file of
  fewer than \<open>2^31 - 1\<close> bytes; the theorems that depend on the value of a counter carry
  this bound on the size of the file.
\<close>

record scan =
  ss :: State
  line_count :: cint
  tab_count :: cint
  crlf_count :: cint
  cr_count :: cint
  c1_count :: cint
  bad_utf_count :: cint
  out :: "printed list"

text \<open>
  A file as \<open>std::ifstream\<close> sees it: it cannot be opened, or it delivers some bytes and
  then one \<open>get\<close> fails, either because the end of the file is reached (\<open>eofbit\<close> and
  \<open>failbit\<close> are set) or because of a read error (\<open>eof()\<close> stays false).
\<close>

datatype ending = Eof | ReadError

datatype disk_file = Unopenable | Stream "byte list" ending

section \<open>The source checker: operations\<close>

text \<open>
  \<open>report\<close>: the incident is written only when its counter is 1. The number written is
  the value of the \<open>int\<close> expression \<open>line_count+1\<close>.
\<close>

definition report ::
  "cint \<Rightarrow> string \<Rightarrow> string \<Rightarrow> cint \<Rightarrow> printed list \<Rightarrow> printed list" where
  "report incident_count msg filename line_count' out' =
     (if incident_count = 1
      then out' @ [ErrorLine filename (sint (line_count' + 1)) msg] else out')"

text \<open>
  The four byte tests. The \<open>char\<close> operand of \<open>&\<close> is promoted to \<open>int\<close> (sign extended)
  before the mask is applied.
\<close>

definition isUtf8Trailer :: "byte \<Rightarrow> bool" where
  "isUtf8Trailer c \<longleftrightarrow> (sint c AND 0xc0) = 0x80"

definition isUtf8Header1 :: "byte \<Rightarrow> bool" where
  "isUtf8Header1 c \<longleftrightarrow> (sint c AND 0xe0) = 0xc0"

definition isUtf8Header2 :: "byte \<Rightarrow> bool" where
  "isUtf8Header2 c \<longleftrightarrow> (sint c AND 0xf0) = 0xe0"

definition isUtf8Header3 :: "byte \<Rightarrow> bool" where
  "isUtf8Header3 c \<longleftrightarrow> (sint c AND 0xf8) = 0xf0"

text \<open>
  The body of \<open>case S_NORMAL\<close>, the inner \<open>switch(c)\<close>. The case \<open>S_BOL\<close> sets the state
  to \<open>S_NORMAL\<close> and falls through to it. The case labels for the line
  feed, the carriage return and the tab are the bytes 0x0A, 0x0D and 0x09, and the
  promoted \<open>c\<close> equals a label exactly when the byte does.
\<close>

definition normal_case :: "string \<Rightarrow> byte \<Rightarrow> scan \<Rightarrow> scan" where
  "normal_case filename c s =
     (if c = LF then s\<lparr>line_count := line_count s + 1, ss := S_BOL\<rparr>
      else if c = CR then s\<lparr>ss := S_CR\<rparr>
      else if c = TAB then
        s\<lparr>tab_count := tab_count s + 1,
          out := report (tab_count s + 1) ''Tab character'' filename (line_count s) (out s)\<rparr>
      else if isUtf8Header3 c then s\<lparr>ss := S_UTF_EXPECT3\<rparr>
      else if isUtf8Header2 c then s\<lparr>ss := S_UTF_EXPECT2\<rparr>
      else if isUtf8Header1 c then s\<lparr>ss := S_UTF_EXPECT1\<rparr>
      else if isUtf8Trailer c then
        s\<lparr>bad_utf_count := bad_utf_count s + 1,
          out := report (bad_utf_count s + 1) ''Bad multibyte sequence'' filename
                   (line_count s) (out s)\<rparr>
      else if unat c < 0x20 then
        s\<lparr>c1_count := c1_count s + 1,
          out := report (c1_count s + 1) ''Unexpected control character'' filename
                   (line_count s) (out s)\<rparr>
      else s)"

text \<open>
  The bodies of \<open>case S_UTF_EXPECT3\<close>, \<open>S_UTF_EXPECT2\<close> and \<open>S_UTF_EXPECT1\<close> differ only
  in the state that follows a trailer.
\<close>

definition utf_case :: "State \<Rightarrow> string \<Rightarrow> byte \<Rightarrow> scan \<Rightarrow> scan" where
  "utf_case next_ss filename c s =
     (if isUtf8Trailer c then s\<lparr>ss := next_ss\<rparr>
      else
        s\<lparr>bad_utf_count := bad_utf_count s + 1,
          out := report (bad_utf_count s + 1) ''Bad multibyte sequence'' filename
                   (line_count s) (out s),
          ss := S_NORMAL\<rparr>)"

text \<open>
  The statement at \<open>reenter_point\<close>: the switch over the state, for the byte \<open>c\<close>. The
  \<open>goto reenter_point\<close> of the bare CR case is the recursive call; \<open>None\<close> is the failed
  \<open>assert(0)\<close> of the default branch, which aborts the process.
\<close>

function classify :: "string \<Rightarrow> byte \<Rightarrow> scan \<Rightarrow> scan option" where
  "classify filename c s =
     (if ss s = S_BOL then Some (normal_case filename c (s\<lparr>ss := S_NORMAL\<rparr>))
      else if ss s = S_NORMAL then Some (normal_case filename c s)
      else if ss s = S_CR then
        (if c = LF then
           Some (s\<lparr>crlf_count := crlf_count s + 1,
                   out := report (crlf_count s + 1) ''Windows newline sequence (CR,LF)''
                            filename (line_count s) (out s),
                   line_count := line_count s + 1,
                   ss := S_BOL\<rparr>)
         else
           classify filename c
             (s\<lparr>cr_count := cr_count s + 1,
                out := report (cr_count s + 1) ''Old-time MacOS newline sequence (CR)''
                         filename (line_count s) (out s),
                line_count := line_count s + 1,
                ss := S_BOL\<rparr>))
      else if ss s = S_UTF_EXPECT3 then Some (utf_case S_UTF_EXPECT2 filename c s)
      else if ss s = S_UTF_EXPECT2 then Some (utf_case S_UTF_EXPECT1 filename c s)
      else if ss s = S_UTF_EXPECT1 then Some (utf_case S_NORMAL filename c s)
      else None)"
  by pat_completeness auto
termination
  by (relation "measure (\<lambda>(filename, c, s). if ss s = S_CR then 1 else 0)")
     (auto simp: State_defs)

declare classify.simps [simp del]

text \<open>
  The loop \<open>while (ifs) { char c; ifs.get(c); ... }\<close>. The stream is tested before the
  read, so when the bytes are used up the stream is still good and the body runs once
  more: \<open>get\<close> fails, sets the failure bits and assigns nothing to \<open>c\<close>, and the switch
  classifies whatever \<open>c\<close> holds. The variable lives in the same place in every
  iteration, so it holds the byte read last; before the first read it holds an
  indeterminate value, the argument \<open>c\<close> of the first call. After the failed read the
  stream is no longer good and the loop ends.
\<close>

fun scanLoop :: "string \<Rightarrow> byte list \<Rightarrow> byte \<Rightarrow> scan \<Rightarrow> scan option" where
  "scanLoop filename [] c s = classify filename c s"
| "scanLoop filename (b # bs) c s =
     (case classify filename b s of
        None \<Rightarrow> None
      | Some s' \<Rightarrow> scanLoop filename bs b s')"

text \<open>The values of the locals before the loop, after the \<open>Checking\<close> line is written.\<close>

definition initial :: "string \<Rightarrow> scan" where
  "initial filename =
     \<lparr>ss = S_BOL, line_count = 0, tab_count = 0, crlf_count = 0, cr_count = 0,
      c1_count = 0, bad_utf_count = 0, out = [Checking filename]\<rparr>"

text \<open>
  \<open>checkOneFile\<close>, given the file system \<open>fs\<close> and the indeterminate initial value \<open>c0\<close>
  of the variable \<open>c\<close>. It returns the lines written and the verdict.
\<close>

definition checkOneFile ::
  "(string \<Rightarrow> disk_file) \<Rightarrow> byte \<Rightarrow> string \<Rightarrow> (printed list \<times> bool) option" where
  "checkOneFile fs c0 filename =
     (case fs filename of
        Unopenable \<Rightarrow> Some ([Checking filename, Perror filename], False)
      | Stream bytes e \<Rightarrow>
          (case scanLoop filename bytes c0 (initial filename) of
             None \<Rightarrow> None
           | Some s \<Rightarrow>
               let out1 = (if ss s \<noteq> S_BOL
                           then report 1 ''Missing EOL at end of file'' filename
                                  (line_count s) (out s)
                           else out s)
               in if e \<noteq> Eof then Some (out1 @ [Perror filename], False)
                  else Some (out1, True)))"

text \<open>
  The two macros of \<open><cstdlib>\<close> that \<open>main\<close> returns, with the values they have on the
  usual platforms: 0 for success and a value that is not 0 for failure.
\<close>

definition EXIT_SUCCESS :: int where "EXIT_SUCCESS = 0"
definition EXIT_FAILURE :: int where "EXIT_FAILURE = 1"

text \<open>
  \<open>main\<close>: the loop over \<open>argv[1]\<close>, ..., \<open>argv[argc - 1]\<close>, which returns at the first
  file whose check fails. \<open>junk i\<close> is the indeterminate initial value of \<open>c\<close> in the
  call for \<open>argv[i]\<close>.
\<close>

fun mainLoop ::
  "(string \<Rightarrow> disk_file) \<Rightarrow> (nat \<Rightarrow> byte) \<Rightarrow> nat \<Rightarrow> string list \<Rightarrow> printed list
     \<Rightarrow> (printed list \<times> int) option" where
  "mainLoop fs junk i [] written = Some (written, EXIT_SUCCESS)"
| "mainLoop fs junk i (a # as) written =
     (case checkOneFile fs (junk i) a of
        None \<Rightarrow> None
      | Some (lines, res) \<Rightarrow>
          if \<not> res then Some (written @ lines, EXIT_FAILURE)
          else mainLoop fs junk (Suc i) as (written @ lines))"

definition main :: "(string \<Rightarrow> disk_file) \<Rightarrow> (nat \<Rightarrow> byte) \<Rightarrow> string list \<Rightarrow> (printed list \<times> int) option" where
  "main fs junk argv = mainLoop fs junk 1 (drop 1 argv) []"

section \<open>Notions used to state the properties\<close>

text \<open>
  \<open>feed\<close> is the switch statement run on the bytes that are read, one after the other;
  lemma \<open>scanLoop_feed\<close> shows that the loop is \<open>feed\<close> on the bytes of the file, followed
  by the one further run of the statement after the failed read.
\<close>

fun feed :: "string \<Rightarrow> byte list \<Rightarrow> scan \<Rightarrow> scan option" where
  "feed filename [] s = Some s"
| "feed filename (b # bs) s =
     (case classify filename b s of
        None \<Rightarrow> None
      | Some s' \<Rightarrow> feed filename bs s')"

text \<open>The values that the locals of \<open>checkOneFile\<close> can take at \<open>reenter_point\<close>.\<close>

inductive reachable :: "string \<Rightarrow> scan \<Rightarrow> bool" for filename :: string where
  start: "reachable filename (initial filename)"
| step: "reachable filename s \<Longrightarrow> classify filename c s = Some s' \<Longrightarrow> reachable filename s'"

text \<open>The state variable holds one of the six enumerators of \<open>State\<close>.\<close>

definition declared :: "scan \<Rightarrow> bool" where
  "declared s \<longleftrightarrow>
     ss s \<in> {S_NORMAL, S_BOL, S_CR, S_UTF_EXPECT3, S_UTF_EXPECT2, S_UTF_EXPECT1}"

text \<open>\<open>is_msg msg l\<close>: the line \<open>l\<close> is an incident line with the message \<open>msg\<close>.\<close>

fun is_msg :: "string \<Rightarrow> printed \<Rightarrow> bool" where
  "is_msg msg (ErrorLine f n m) = (m = msg)"
| "is_msg msg (Checking f) = False"
| "is_msg msg (Perror f) = False"

text \<open>The messages of the incidents that the loop reports.\<close>

definition loop_msgs :: "string set" where
  "loop_msgs = {''Tab character'', ''Bad multibyte sequence'', ''Unexpected control character'',
      ''Windows newline sequence (CR,LF)'', ''Old-time MacOS newline sequence (CR)''}"

text \<open>
  The scan of a file meets no I/O failure: the file can be opened and the read that fails
  is the one at the end of the file.
\<close>

fun io_ok :: "disk_file \<Rightarrow> bool" where
  "io_ok Unopenable = False"
| "io_ok (Stream bytes e) = (e = Eof)"

text \<open>
  The arguments up to and including the first one whose file meets an I/O failure.
\<close>

fun scanned :: "(string \<Rightarrow> disk_file) \<Rightarrow> string list \<Rightarrow> string list" where
  "scanned fs [] = []"
| "scanned fs (a # as) = (if io_ok (fs a) then a # scanned fs as else [a])"

text \<open>
  What the scans of the arguments \<open>as\<close> write one after the other, each scan starting from
  the initial values of the locals; the first of them is the scan of \<open>argv[i]\<close>.
\<close>

fun scan_outputs ::
  "(string \<Rightarrow> disk_file) \<Rightarrow> (nat \<Rightarrow> byte) \<Rightarrow> nat \<Rightarrow> string list \<Rightarrow> printed list" where
  "scan_outputs fs junk i [] = []"
| "scan_outputs fs junk i (a # as) =
     (case checkOneFile fs (junk i) a of None \<Rightarrow> [] | Some (ls, res) \<Rightarrow> ls)
     @ scan_outputs fs junk (Suc i) as"

text \<open>The line is a \<open>Checking\<close> announcement.\<close>

fun is_Checking :: "printed \<Rightarrow> bool" where
  "is_Checking (Checking f) = True"
| "is_Checking (ErrorLine f n m) = False"
| "is_Checking (Perror f) = False"

text \<open>The line is an incident line for this file with one of the messages of the loop.\<close>

fun loop_line :: "string \<Rightarrow> printed \<Rightarrow> bool" where
  "loop_line filename (ErrorLine f n m) = (f = filename \<and> m \<in> loop_msgs)"
| "loop_line filename (Checking f) = False"
| "loop_line filename (Perror f) = False"

text \<open>
  A file system for the examples: \<open>bad\<close> cannot be opened, \<open>tabs\<close> holds a tab and a
  letter, every other file holds a letter and a line feed. In the examples the variable \<open>c\<close>
  is 0 before the first read.
\<close>

definition example_fs :: "string \<Rightarrow> disk_file" where
  "example_fs f =
     (if f = ''bad'' then Unopenable
      else if f = ''tabs'' then Stream [TAB, 0x41] Eof
      else Stream [0x41, LF] Eof)"

definition zero_junk :: "nat \<Rightarrow> byte" where
  "zero_junk i = 0"

text \<open>
  A byte of plain text: 7-bit ASCII, and no control byte below 0x20 other than the line
  feed.
\<close>

definition clean :: "byte \<Rightarrow> bool" where
  "clean b \<longleftrightarrow> unat b < 0x80 \<and> (unat b < 0x20 \<longrightarrow> b = LF)"

text \<open>Two more files for the examples: a letter and a CR, and a single letter.\<close>

definition cr_file :: "string \<Rightarrow> disk_file" where
  "cr_file f = Stream [0x41, CR] Eof"

definition letter_file :: "string \<Rightarrow> disk_file" where
  "letter_file f = Stream [0x41] Eof"



text \<open>The number of continuation bytes that a lead byte announces.\<close>

definition announced :: "byte \<Rightarrow> nat" where
  "announced c =
     (if isUtf8Header3 c then 3 else if isUtf8Header2 c then 2
      else if isUtf8Header1 c then 1 else 0)"

text \<open>
  The line terminators in a sequence of bytes that are read while no continuation byte is
  expected: a lone LF, a lone CR, or a CR followed by LF count once each. The first
  argument is the number of continuation bytes that are still expected; a byte read in
  their place, continuation byte or not, ends no line.
\<close>

fun line_ends :: "nat \<Rightarrow> byte list \<Rightarrow> nat" where
  "line_ends n [] = 0"
| "line_ends 0 [b] = (if b = LF \<or> b = CR then 1 else 0)"
| "line_ends 0 (b # b' # bs) =
     (if b = CR \<and> b' = LF then Suc (line_ends 0 bs)
      else if b = LF \<or> b = CR then Suc (line_ends 0 (b' # bs))
      else line_ends (announced b) (b' # bs))"
| "line_ends (Suc n) (b # bs) = (if isUtf8Trailer b then line_ends n bs else line_ends 0 bs)"

text \<open>
  The tabs in a sequence of bytes that are read while no continuation byte is expected.
\<close>

fun text_tabs :: "nat \<Rightarrow> byte list \<Rightarrow> nat" where
  "text_tabs n [] = 0"
| "text_tabs 0 (b # bs) =
     (if b = TAB then Suc (text_tabs 0 bs) else text_tabs (announced b) bs)"
| "text_tabs (Suc n) (b # bs) = (if isUtf8Trailer b then text_tabs n bs else text_tabs 0 bs)"

text \<open>The number of continuation bytes that the state of the scan expects.\<close>

definition pend :: "scan \<Rightarrow> nat" where
  "pend s =
     (if ss s = S_UTF_EXPECT3 then 3 else if ss s = S_UTF_EXPECT2 then 2
      else if ss s = S_UTF_EXPECT1 then 1 else 0)"



text \<open>Files for the examples.\<close>

definition lead_then_tab :: "string \<Rightarrow> disk_file" where
  "lead_then_tab f = Stream [0xE2, TAB, LF] Eof"

text \<open>The \<open>Tab character\<close> line written between two values of the locals, if any.\<close>

definition tab_line :: "string \<Rightarrow> scan \<Rightarrow> scan \<Rightarrow> printed list" where
  "tab_line filename s s' =
     (if tab_count s = 0 \<and> tab_count s' \<noteq> 0
      then [ErrorLine filename (sint (line_count s' + 1)) ''Tab character''] else [])"

text \<open>A file whose first tab stands on the third line, behind a bare CR.\<close>

definition tab_on_third_line :: "string \<Rightarrow> disk_file" where
  "tab_on_third_line f = Stream [0x41, LF, 0x42, CR, TAB, TAB, LF] Eof"

text \<open>From \<open>s\<close> to \<open>s'\<close> no counter, read as unsigned, grows by more than \<open>n\<close>.\<close>

definition within :: "nat \<Rightarrow> scan \<Rightarrow> scan \<Rightarrow> bool" where
  "within n s s' \<longleftrightarrow>
     (\<forall>k \<in> {line_count, tab_count, crlf_count, cr_count, c1_count, bad_utf_count}.
        unat (k s') \<le> unat (k s) + n)"

section \<open>Bytes\<close>

lemma byte_exhaust:
  assumes "list_all P (map of_nat [0..<256])"
  shows "P (c::byte)"
proof -
  have "unat c < 256" using unsigned_less[of c, where ?'a=nat] by simp
  then have "unat c \<in> set [0..<256]" by simp
  then have "of_nat (unat c) \<in> set (map of_nat [0..<256] :: byte list)"
    unfolding set_map by (rule imageI)
  then have "c \<in> set (map of_nat [0..<256] :: byte list)" by simp
  with assms show ?thesis by (auto simp: list_all_iff)
qed

lemma isUtf8Trailer_iff: "isUtf8Trailer c \<longleftrightarrow> 0x80 \<le> unat c \<and> unat c < 0xC0"
  by (rule byte_exhaust) code_simp

lemma isUtf8Header1_iff: "isUtf8Header1 c \<longleftrightarrow> 0xC0 \<le> unat c \<and> unat c < 0xE0"
  by (rule byte_exhaust) code_simp

lemma isUtf8Header2_iff: "isUtf8Header2 c \<longleftrightarrow> 0xE0 \<le> unat c \<and> unat c < 0xF0"
  by (rule byte_exhaust) code_simp

lemma isUtf8Header3_iff: "isUtf8Header3 c \<longleftrightarrow> 0xF0 \<le> unat c \<and> unat c < 0xF8"
  by (rule byte_exhaust) code_simp

lemmas utf_iffs = isUtf8Trailer_iff isUtf8Header1_iff isUtf8Header2_iff isUtf8Header3_iff

lemma unat_LF [simp]: "unat LF = 10" by (simp add: LF_def)
lemma unat_CR [simp]: "unat CR = 13" by (simp add: CR_def)
lemma unat_TAB [simp]: "unat TAB = 9" by (simp add: TAB_def)

lemma special_distinct [simp]:
  "LF \<noteq> CR" "CR \<noteq> LF" "LF \<noteq> TAB" "TAB \<noteq> LF" "CR \<noteq> TAB" "TAB \<noteq> CR"
  by (simp_all add: LF_def CR_def TAB_def)

section \<open>Counters\<close>

lemma unat_inc:
  "unat (x + 1 :: cint) = (if unat x = 4294967295 then 0 else unat x + 1)"
  using unsigned_less[of x, where ?'a = nat] by (simp add: unat_plus_if')

lemma unat_inc_le: "unat (x + 1 :: cint) \<le> Suc (unat x)"
  by (simp add: unat_inc)

lemma sint_small: "unat x < 2147483648 \<Longrightarrow> sint (x :: cint) = int (unat x)"
proof -
  assume a: "unat x < 2147483648"
  have u: "uint x = int (unat x)" by simp
  with a have hi: "uint x < 2147483648" by linarith
  have "0 \<le> uint x" by simp
  then have lo: "- 2147483648 \<le> uint x" by linarith
  from lo hi have "signed_take_bit 31 (uint x) = uint x"
    by (simp add: signed_take_bit_int_eq_self_iff)
  with u show ?thesis by (simp add: sint_uint)
qed

lemma unat_of_nat_small: "n < 4294967296 \<Longrightarrow> unat (of_nat n :: cint) = n"
  by (simp add: unat_of_nat)

lemma sint_of_nat_small: "n < 2147483648 \<Longrightarrow> sint (of_nat n :: cint) = int n"
  by (simp add: sint_small unat_of_nat_small)

section \<open>The switch statement, state by state\<close>

lemma classify_BOL:
  "ss s = S_BOL \<Longrightarrow> classify filename c s = Some (normal_case filename c (s\<lparr>ss := S_NORMAL\<rparr>))"
  by (subst classify.simps) simp

lemma classify_NORMAL:
  "ss s = S_NORMAL \<Longrightarrow> classify filename c s = Some (normal_case filename c s)"
  by (subst classify.simps) (simp add: State_defs)

lemma classify_CR_LF:
  "ss s = S_CR \<Longrightarrow> classify filename LF s =
     Some (s\<lparr>crlf_count := crlf_count s + 1,
             out := report (crlf_count s + 1) ''Windows newline sequence (CR,LF)''
                      filename (line_count s) (out s),
             line_count := line_count s + 1,
             ss := S_BOL\<rparr>)"
  by (subst classify.simps) (simp add: State_defs)

lemma classify_CR_other:
  "ss s = S_CR \<Longrightarrow> c \<noteq> LF \<Longrightarrow> classify filename c s =
     Some (normal_case filename c
            (s\<lparr>cr_count := cr_count s + 1,
               out := report (cr_count s + 1) ''Old-time MacOS newline sequence (CR)''
                        filename (line_count s) (out s),
               line_count := line_count s + 1,
               ss := S_NORMAL\<rparr>))"
  by (subst classify.simps, simp add: State_defs, subst classify.simps, simp add: State_defs)

lemma classify_EXPECT3:
  "ss s = S_UTF_EXPECT3 \<Longrightarrow> classify filename c s = Some (utf_case S_UTF_EXPECT2 filename c s)"
  by (subst classify.simps) (simp add: State_defs)

lemma classify_EXPECT2:
  "ss s = S_UTF_EXPECT2 \<Longrightarrow> classify filename c s = Some (utf_case S_UTF_EXPECT1 filename c s)"
  by (subst classify.simps) (simp add: State_defs)

lemma classify_EXPECT1:
  "ss s = S_UTF_EXPECT1 \<Longrightarrow> classify filename c s = Some (utf_case S_NORMAL filename c s)"
  by (subst classify.simps) (simp add: State_defs)

lemma classify_undeclared:
  "ss s \<notin> {S_NORMAL, S_BOL, S_CR, S_UTF_EXPECT3, S_UTF_EXPECT2, S_UTF_EXPECT1}
     \<Longrightarrow> classify filename c s = None"
  by (subst classify.simps) simp

section \<open>The state variable\<close>

lemma declared_cases [consumes 1, case_names NORMAL BOL CR E3 E2 E1]:
  assumes "declared s"
  obtains "ss s = S_NORMAL" | "ss s = S_BOL" | "ss s = S_CR"
    | "ss s = S_UTF_EXPECT3" | "ss s = S_UTF_EXPECT2" | "ss s = S_UTF_EXPECT1"
  using assms unfolding declared_def by blast

lemma normal_case_declared: "declared s \<Longrightarrow> declared (normal_case filename c s)"
  by (simp add: normal_case_def declared_def)

lemma utf_case_declared:
  "n \<in> {S_NORMAL, S_UTF_EXPECT2, S_UTF_EXPECT1} \<Longrightarrow> declared (utf_case n filename c s)"
  by (auto simp: utf_case_def declared_def)

lemma classify_declared:
  assumes "declared s"
  shows "\<exists>s'. classify filename c s = Some s' \<and> declared s'"
  using assms
proof (cases rule: declared_cases)
  case NORMAL
  with assms show ?thesis by (simp add: classify_NORMAL normal_case_declared)
next
  case BOL
  then have "declared (s\<lparr>ss := S_NORMAL\<rparr>)" by (simp add: declared_def)
  with BOL show ?thesis by (simp add: classify_BOL normal_case_declared)
next
  case CR
  show ?thesis
  proof (cases "c = LF")
    case True
    with CR show ?thesis by (simp add: classify_CR_LF declared_def)
  next
    case False
    with CR show ?thesis
      by (simp add: classify_CR_other) (rule normal_case_declared, simp add: declared_def)
  qed
next
  case E3
  then show ?thesis by (simp add: classify_EXPECT3 utf_case_declared)
next
  case E2
  then show ?thesis by (simp add: classify_EXPECT2 utf_case_declared)
next
  case E1
  then show ?thesis by (simp add: classify_EXPECT1 utf_case_declared)
qed

lemma initial_declared: "declared (initial filename)"
  by (simp add: initial_def declared_def)

lemma reachable_declared: "reachable filename s \<Longrightarrow> declared s"
proof (induction rule: reachable.induct)
  case start
  show ?case by (rule initial_declared)
next
  case (step s c s')
  with classify_declared[of s filename c] show ?case by auto
qed

lemma feed_declared:
  "declared s \<Longrightarrow> \<exists>s'. feed filename bs s = Some s' \<and> declared s'"
proof (induction bs arbitrary: s)
  case Nil
  then show ?case by simp
next
  case (Cons b bs)
  from classify_declared[OF Cons.prems, of filename b]
  obtain s1 where "classify filename b s = Some s1" "declared s1" by blast
  with Cons.IH[of s1] show ?case by simp
qed

lemma feed_reachable:
  "reachable filename s \<Longrightarrow> feed filename bs s = Some s' \<Longrightarrow> reachable filename s'"
proof (induction bs arbitrary: s)
  case Nil
  then show ?case by simp
next
  case (Cons b bs)
  then show ?case
    by (auto split: option.splits intro: reachable.step)
qed

lemma feed_append:
  "feed filename (xs @ ys) s = Option.bind (feed filename xs s) (feed filename ys)"
  by (induction xs arbitrary: s) (auto split: option.splits)

lemma scanLoop_feed:
  "scanLoop filename bs c s =
     Option.bind (feed filename bs s) (classify filename (last (c # bs)))"
  by (induction bs arbitrary: c s) (auto split: option.splits)

lemma scanLoop_append:
  "scanLoop filename (xs @ ys) c s =
     Option.bind (feed filename xs s) (scanLoop filename ys (last (c # xs)))"
  by (induction xs arbitrary: c s) (auto split: option.splits)

text \<open>
  C9: whatever bytes have been classified since the start of the scan, the state variable
  holds one of the six enumerators of \<open>State\<close>, and the switch statement run on any byte
  takes one of its six cases and ends in such a state again: the \<open>default\<close> branch with
  \<open>assert(0)\<close> is never reached.
\<close>

theorem state_always_declared:
  assumes "reachable filename s"
  shows "ss s \<in> {S_NORMAL, S_BOL, S_CR, S_UTF_EXPECT3, S_UTF_EXPECT2, S_UTF_EXPECT1}
         \<and> (\<exists>s'. classify filename c s = Some s' \<and> reachable filename s')"
proof -
  from assms have d: "declared s" by (rule reachable_declared)
  from classify_declared[OF d, of filename c]
  obtain s' where s': "classify filename c s = Some s'" by blast
  with assms have "reachable filename s'" by (rule reachable.step)
  with d s' show ?thesis by (simp add: declared_def)
qed

theorem state_always_declared_witness:
  "ss (initial ''f'') \<in> {S_NORMAL, S_BOL, S_CR, S_UTF_EXPECT3, S_UTF_EXPECT2, S_UTF_EXPECT1}
   \<and> (\<exists>s'. classify ''f'' 0x41 (initial ''f'') = Some s' \<and> reachable ''f'' s')"
  using state_always_declared[OF reachable.start, of "''f''" "0x41"] by simp

section \<open>The lines written and the verdict\<close>

lemma normal_case_out:
  "\<exists>ls. out (normal_case filename c s) = out s @ ls \<and> list_all (loop_line filename) ls"
  by (simp add: normal_case_def report_def loop_msgs_def)

lemma utf_case_out:
  "\<exists>ls. out (utf_case n filename c s) = out s @ ls \<and> list_all (loop_line filename) ls"
  by (simp add: utf_case_def report_def loop_msgs_def)

lemma out_append_trans:
  assumes "\<exists>ls. out s1 = out s @ ls \<and> list_all (loop_line filename) ls"
    and "\<exists>ls. out s2 = out s1 @ ls \<and> list_all (loop_line filename) ls"
  shows "\<exists>ls. out s2 = out s @ ls \<and> list_all (loop_line filename) ls"
proof -
  from assms(1) obtain ls1 where 1: "out s1 = out s @ ls1" "list_all (loop_line filename) ls1"
    by blast
  from assms(2) obtain ls2 where 2: "out s2 = out s1 @ ls2" "list_all (loop_line filename) ls2"
    by blast
  from 1 2 have "out s2 = out s @ (ls1 @ ls2) \<and> list_all (loop_line filename) (ls1 @ ls2)"
    by simp
  then show ?thesis by (rule exI)
qed

lemma classify_out:
  assumes "classify filename c s = Some s'"
  shows "\<exists>ls. out s' = out s @ ls \<and> list_all (loop_line filename) ls"
proof (cases "declared s")
  case False
  then have "classify filename c s = None"
    unfolding declared_def by (rule classify_undeclared)
  with assms show ?thesis by simp
next
  case True
  then show ?thesis
  proof (cases rule: declared_cases)
    case NORMAL
    with assms have "s' = normal_case filename c s" by (simp add: classify_NORMAL)
    then show ?thesis using normal_case_out[of filename c s] by simp
  next
    case BOL
    with assms have "s' = normal_case filename c (s\<lparr>ss := S_NORMAL\<rparr>)"
      by (simp add: classify_BOL)
    then show ?thesis using normal_case_out[of filename c "s\<lparr>ss := S_NORMAL\<rparr>"] by simp
  next
    case CR
    show ?thesis
    proof (cases "c = LF")
      case True
      with CR assms have "out s' = report (crlf_count s + 1) ''Windows newline sequence (CR,LF)''
                      filename (line_count s) (out s)"
        by (auto simp: classify_CR_LF)
      then show ?thesis by (simp add: report_def loop_msgs_def)
    next
      case False
      let ?s1 = "s\<lparr>cr_count := cr_count s + 1,
               out := report (cr_count s + 1) ''Old-time MacOS newline sequence (CR)''
                        filename (line_count s) (out s),
               line_count := line_count s + 1,
               ss := S_NORMAL\<rparr>"
      have 1: "\<exists>ls. out ?s1 = out s @ ls \<and> list_all (loop_line filename) ls"
        by (simp add: report_def loop_msgs_def)
      from False CR assms have "s' = normal_case filename c ?s1"
        by (simp add: classify_CR_other)
      then have 2: "\<exists>ls. out s' = out ?s1 @ ls \<and> list_all (loop_line filename) ls"
        using normal_case_out[of filename c ?s1] by simp
      from 1 2 show ?thesis by (rule out_append_trans)
    qed
  next
    case E3
    with assms have "s' = utf_case S_UTF_EXPECT2 filename c s" by (simp add: classify_EXPECT3)
    then show ?thesis using utf_case_out[of S_UTF_EXPECT2 filename c s] by simp
  next
    case E2
    with assms have "s' = utf_case S_UTF_EXPECT1 filename c s" by (simp add: classify_EXPECT2)
    then show ?thesis using utf_case_out[of S_UTF_EXPECT1 filename c s] by simp
  next
    case E1
    with assms have "s' = utf_case S_NORMAL filename c s" by (simp add: classify_EXPECT1)
    then show ?thesis using utf_case_out[of S_NORMAL filename c s] by simp
  qed
qed

lemma feed_out:
  "feed filename bs s = Some s'
     \<Longrightarrow> \<exists>ls. out s' = out s @ ls \<and> list_all (loop_line filename) ls"
proof (induction bs arbitrary: s)
  case Nil
  then show ?case by simp
next
  case (Cons b bs)
  then obtain s1 where 1: "classify filename b s = Some s1" and 2: "feed filename bs s1 = Some s'"
    by (auto split: option.splits)
  from classify_out[OF 1] Cons.IH[OF 2] show ?case by (rule out_append_trans)
qed

lemma scanLoop_out:
  assumes "scanLoop filename bs c s = Some s'"
  shows "\<exists>ls. out s' = out s @ ls \<and> list_all (loop_line filename) ls"
proof -
  from assms obtain s1 where 1: "feed filename bs s = Some s1"
    and 2: "classify filename (last (c # bs)) s1 = Some s'"
    unfolding scanLoop_feed by (cases "feed filename bs s") auto
  from feed_out[OF 1] classify_out[OF 2] show ?thesis by (rule out_append_trans)
qed

lemma scanLoop_total:
  assumes "declared s"
  shows "\<exists>s'. scanLoop filename bs c s = Some s' \<and> declared s'"
proof -
  from feed_declared[OF assms, of filename bs]
  obtain s1 where "feed filename bs s = Some s1" "declared s1" by blast
  with classify_declared[of s1 filename "last (c # bs)"] show ?thesis
    by (auto simp: scanLoop_feed)
qed

lemma loop_line_not_Checking: "list_all (loop_line filename) ls \<Longrightarrow> filter is_Checking ls = []"
proof (induction ls)
  case Nil
  show ?case by simp
next
  case (Cons l ls)
  then show ?case by (cases l) auto
qed

lemma checkOneFile_result:
  "\<exists>ls. checkOneFile fs c0 filename = Some (Checking filename # ls, io_ok (fs filename))
        \<and> filter is_Checking ls = []"
proof (cases "fs filename")
  case Unopenable
  then show ?thesis by (simp add: checkOneFile_def)
next
  case (Stream bs e)
  from scanLoop_total[OF initial_declared, of filename bs c0]
  obtain s where s: "scanLoop filename bs c0 (initial filename) = Some s" by blast
  from scanLoop_out[OF s] obtain ls where ls: "out s = Checking filename # ls"
    "list_all (loop_line filename) ls"
    by (auto simp: initial_def)
  from ls(2) have "filter is_Checking ls = []" by (rule loop_line_not_Checking)
  with Stream s ls(1) show ?thesis
    by (simp add: checkOneFile_def report_def Let_def)
qed

lemma mainLoop_result:
  "\<exists>ls. mainLoop fs junk i args written =
          Some (written @ ls,
                if \<forall>a \<in> set args. io_ok (fs a) then EXIT_SUCCESS else EXIT_FAILURE)
        \<and> ls = scan_outputs fs junk i (scanned fs args)
        \<and> filter is_Checking ls = map Checking (scanned fs args)"
proof (induction args arbitrary: i written)
  case Nil
  show ?case by simp
next
  case (Cons a as)
  from checkOneFile_result[of fs "junk i" a]
  obtain ls where ls: "checkOneFile fs (junk i) a = Some (Checking a # ls, io_ok (fs a))"
    "filter is_Checking ls = []" by blast
  show ?case
  proof (cases "io_ok (fs a)")
    case False
    with ls show ?thesis by simp
  next
    case True
    from Cons.IH[of "Suc i" "written @ Checking a # ls"]
    obtain ls' where "mainLoop fs junk (Suc i) as (written @ Checking a # ls) =
        Some ((written @ Checking a # ls) @ ls',
              if \<forall>a \<in> set as. io_ok (fs a) then EXIT_SUCCESS else EXIT_FAILURE)"
      "ls' = scan_outputs fs junk (Suc i) (scanned fs as)"
      "filter is_Checking ls' = map Checking (scanned fs as)" by blast
    with True ls show ?thesis by simp
  qed
qed

lemma checkOneFile_junk:
  assumes "\<forall>e. fs a \<noteq> Stream [] e" and "fs' a = fs a"
  shows "checkOneFile fs' c' a = checkOneFile fs c a"
proof (cases "fs a")
  case Unopenable
  with assms(2) show ?thesis by (simp add: checkOneFile_def)
next
  case (Stream bs e)
  with assms(1) obtain b bs' where "bs = b # bs'" by (cases bs) auto
  with Stream assms(2) show ?thesis by (simp add: checkOneFile_def)
qed

text \<open>
  C6: the verdict of \<open>checkOneFile\<close> is true exactly when the file can be opened and is
  read up to its end, whatever its bytes are, and the exit code of \<open>main\<close> is
  \<open>EXIT_SUCCESS\<close>, which is 0, exactly when that holds for every argument; otherwise it
  is \<open>EXIT_FAILURE\<close>, which is not 0.
\<close>

theorem exit_code_io_only:
  "(\<exists>ls. checkOneFile fs c0 filename = Some (ls, io_ok (fs filename)))
   \<and> (\<exists>ls. main fs junk argv =
          Some (ls, if \<forall>a \<in> set (drop 1 argv). io_ok (fs a) then EXIT_SUCCESS else EXIT_FAILURE))
   \<and> EXIT_SUCCESS = 0 \<and> EXIT_FAILURE \<noteq> 0"
proof -
  from checkOneFile_result[of fs c0 filename]
  have 1: "\<exists>ls. checkOneFile fs c0 filename = Some (ls, io_ok (fs filename))" by blast
  from mainLoop_result[of fs junk 1 "drop 1 argv" "[]"]
  have 2: "\<exists>ls. main fs junk argv =
          Some (ls, if \<forall>a \<in> set (drop 1 argv). io_ok (fs a) then EXIT_SUCCESS else EXIT_FAILURE)"
    unfolding main_def by auto
  from 1 2 show ?thesis by (simp add: EXIT_SUCCESS_def EXIT_FAILURE_def)
qed

theorem exit_code_io_only_witness:
  "(\<exists>ls. checkOneFile example_fs 0 ''tabs'' = Some (ls, True))
   \<and> (\<exists>ls. main example_fs zero_junk [''prog'', ''tabs'', ''good''] = Some (ls, 0))"
  using exit_code_io_only[of example_fs 0 "''tabs''" zero_junk "[''prog'', ''tabs'', ''good'']"]
  by (simp add: example_fs_def EXIT_SUCCESS_def)

text \<open>
  C7, as amended: the arguments are scanned in their order up to and including the first
  one whose scan meets an I/O failure; there \<open>main\<close> returns \<open>EXIT_FAILURE\<close> and no argument
  after that one is scanned; when no scan fails, every argument is scanned and \<open>main\<close>
  returns \<open>EXIT_SUCCESS\<close>. The output is what the scans of these arguments write, one after
  the other, with one \<open>Checking\<close> line for each of them, in order. Each scan starts from
  the initial values of the locals, writes its \<open>Checking\<close> line first and fails exactly when
  its file meets an I/O failure, and what the scan of a file that is not empty writes and
  returns is determined by that file alone.
\<close>

theorem scans_stop_at_first_failure:
  "main fs junk argv =
     Some (scan_outputs fs junk 1 (scanned fs (drop 1 argv)),
           if \<forall>a \<in> set (drop 1 argv). io_ok (fs a) then EXIT_SUCCESS else EXIT_FAILURE)
   \<and> filter is_Checking (scan_outputs fs junk 1 (scanned fs (drop 1 argv)))
       = map Checking (scanned fs (drop 1 argv))
   \<and> (\<exists>ls. checkOneFile fs c a = Some (Checking a # ls, io_ok (fs a))
          \<and> filter is_Checking ls = [])
   \<and> ((\<forall>e. fs a \<noteq> Stream [] e) \<and> fs' a = fs a
        \<longrightarrow> checkOneFile fs' c' a = checkOneFile fs c a)"
proof -
  from mainLoop_result[of fs junk 1 "drop 1 argv" "[]"]
  have 1: "main fs junk argv =
     Some (scan_outputs fs junk 1 (scanned fs (drop 1 argv)),
           if \<forall>a \<in> set (drop 1 argv). io_ok (fs a) then EXIT_SUCCESS else EXIT_FAILURE)
   \<and> filter is_Checking (scan_outputs fs junk 1 (scanned fs (drop 1 argv)))
       = map Checking (scanned fs (drop 1 argv))"
    unfolding main_def by auto
  have 2: "checkOneFile fs' c' a = checkOneFile fs c a"
    if "\<forall>e. fs a \<noteq> Stream [] e" "fs' a = fs a"
    using that by (rule checkOneFile_junk)
  from 1 2 checkOneFile_result[of fs c a] show ?thesis by blast
qed

theorem scans_stop_at_first_failure_witness:
  "main example_fs zero_junk [''prog'', ''good'', ''bad'', ''tabs''] =
     Some ([Checking ''good'', Checking ''bad'', Perror ''bad''], EXIT_FAILURE)
   \<and> checkOneFile example_fs 1 ''good'' = checkOneFile example_fs 0 ''good''"
proof -
  have g: "checkOneFile example_fs c ''good'' = Some ([Checking ''good''], True)" for c
    by (simp add: checkOneFile_def example_fs_def initial_def classify_BOL classify_NORMAL
          normal_case_def report_def LF_def CR_def TAB_def State_defs utf_iffs)
  have b: "checkOneFile example_fs c ''bad'' = Some ([Checking ''bad'', Perror ''bad''], False)"
    for c
    by (simp add: checkOneFile_def example_fs_def)
  have n: "\<forall>e. example_fs ''good'' \<noteq> Stream [] e" by (simp add: example_fs_def)
  from scans_stop_at_first_failure[of example_fs zero_junk
      "[''prog'', ''good'', ''bad'', ''tabs'']" 0 "''good''" example_fs 1] n
  show ?thesis by (simp add: example_fs_def g b)
qed

text \<open>
  C7 as stated fails: with the arguments \<open>bad\<close> and \<open>good\<close>, the file \<open>good\<close> that follows
  the unopenable file is never scanned.
\<close>

theorem later_files_not_scanned:
  "main example_fs zero_junk [''prog'', ''bad'', ''good''] =
     Some ([Checking ''bad'', Perror ''bad''], EXIT_FAILURE)"
  by (simp add: main_def example_fs_def checkOneFile_def)

section \<open>The end of the file\<close>

lemma normal_case_ss_BOL:
  "ss s = S_NORMAL \<Longrightarrow> ss (normal_case filename c s) = S_BOL \<longleftrightarrow> c = LF"
  by (simp add: normal_case_def State_defs)

lemma classify_ss_nonLF:
  assumes "classify filename c s = Some s'" and "c \<noteq> LF"
  shows "ss s' \<noteq> S_BOL"
proof (cases "declared s")
  case False
  then have "classify filename c s = None"
    unfolding declared_def by (rule classify_undeclared)
  with assms show ?thesis by simp
next
  case True
  then show ?thesis
  proof (cases rule: declared_cases)
    case NORMAL
    with assms show ?thesis by (auto simp: classify_NORMAL normal_case_ss_BOL)
  next
    case BOL
    with assms show ?thesis by (auto simp: classify_BOL normal_case_ss_BOL)
  next
    case CR
    with assms show ?thesis by (auto simp: classify_CR_other normal_case_ss_BOL)
  next
    case E3
    with assms show ?thesis by (auto simp: classify_EXPECT3 utf_case_def State_defs split: if_splits)
  next
    case E2
    with assms show ?thesis by (auto simp: classify_EXPECT2 utf_case_def State_defs split: if_splits)
  next
    case E1
    with assms show ?thesis by (auto simp: classify_EXPECT1 utf_case_def State_defs split: if_splits)
  qed
qed

lemma LF_not_trailer [simp]: "\<not> isUtf8Trailer LF"
  by (simp add: isUtf8Trailer_iff)

lemma classify_ss_LF:
  assumes "classify filename LF s = Some s'"
  shows "ss s' = (if ss s \<in> {S_NORMAL, S_BOL, S_CR} then S_BOL else S_NORMAL)"
proof (cases "declared s")
  case False
  then have "classify filename LF s = None"
    unfolding declared_def by (rule classify_undeclared)
  with assms show ?thesis by simp
next
  case True
  then show ?thesis
  proof (cases rule: declared_cases)
    case NORMAL
    with assms show ?thesis by (auto simp: classify_NORMAL normal_case_ss_BOL)
  next
    case BOL
    with assms show ?thesis by (auto simp: classify_BOL normal_case_ss_BOL)
  next
    case CR
    with assms show ?thesis by (auto simp: classify_CR_LF)
  next
    case E3
    with assms show ?thesis by (auto simp: classify_EXPECT3 utf_case_def State_defs split: if_splits)
  next
    case E2
    with assms show ?thesis by (auto simp: classify_EXPECT2 utf_case_def State_defs split: if_splits)
  next
    case E1
    with assms show ?thesis by (auto simp: classify_EXPECT1 utf_case_def State_defs split: if_splits)
  qed
qed

lemma scanLoop_snoc:
  "scanLoop filename (pre @ [b]) c s = Some s' \<longleftrightarrow>
     (\<exists>s1 s2. feed filename pre s = Some s1 \<and> classify filename b s1 = Some s2
        \<and> classify filename b s2 = Some s')"
  by (auto simp: scanLoop_feed feed_append bind_eq_Some_conv split: option.splits)

lemma scanLoop_final_ss:
  assumes "scanLoop filename bs c s = Some s'" and "bs \<noteq> []"
  shows "ss s' = S_BOL \<longleftrightarrow> last bs = LF"
proof -
  from assms(2) obtain pre b where bs: "bs = pre @ [b]" by (cases bs rule: rev_cases) auto
  with assms(1) have "\<exists>s1 s2. feed filename pre s = Some s1
      \<and> classify filename b s1 = Some s2 \<and> classify filename b s2 = Some s'"
    by (simp add: scanLoop_snoc)
  then obtain s1 s2 where 1: "feed filename pre s = Some s1"
    and 2: "classify filename b s1 = Some s2" and 3: "classify filename b s2 = Some s'"
    by blast
  show ?thesis
  proof (cases "b = LF")
    case False
    with classify_ss_nonLF[OF 3] bs show ?thesis by simp
  next
    case True
    with classify_ss_LF[of filename s1 s2] 2 have "ss s2 = S_BOL \<or> ss s2 = S_NORMAL"
      by (simp split: if_splits)
    with classify_ss_LF[of filename s2 s'] 3 True have "ss s' = S_BOL" by auto
    with True bs show ?thesis by simp
  qed
qed

lemma loop_line_not_Missing:
  "list_all (loop_line filename) ls \<Longrightarrow> filter (is_msg ''Missing EOL at end of file'') ls = []"
proof (induction ls)
  case Nil
  show ?case by simp
next
  case (Cons l ls)
  then show ?case by (cases l) (auto simp: loop_msgs_def)
qed

text \<open>
  C3, as amended: for every file that is not empty, the output holds exactly one
  \<open>Missing EOL at end of file\<close> line when the last byte is not a line feed, whatever the
  other incidents are, and none when the last byte is a line feed. A file that ends in a
  bare CR is among the former.
\<close>

theorem missing_eol_iff_last_not_LF:
  assumes "fs filename = Stream bs e" and "bs \<noteq> []"
  shows "\<exists>ls. checkOneFile fs c0 filename = Some (ls, e = Eof)
           \<and> length (filter (is_msg ''Missing EOL at end of file'') ls)
               = (if last bs = LF then 0 else 1)"
proof -
  from scanLoop_total[OF initial_declared, of filename bs c0]
  obtain s where s: "scanLoop filename bs c0 (initial filename) = Some s" by blast
  from scanLoop_out[OF s] obtain ls where ls: "out s = Checking filename # ls"
    "list_all (loop_line filename) ls"
    by (auto simp: initial_def)
  from ls(2) have none: "filter (is_msg ''Missing EOL at end of file'') ls = []"
    by (rule loop_line_not_Missing)
  from scanLoop_final_ss[OF s assms(2)] have fin: "ss s = S_BOL \<longleftrightarrow> last bs = LF" .
  from assms(1) s ls(1) none fin show ?thesis
    by (simp add: checkOneFile_def report_def Let_def)
qed

theorem missing_eol_iff_last_not_LF_witness:
  "\<exists>ls. checkOneFile letter_file 0 ''f'' = Some (ls, True)
           \<and> length (filter (is_msg ''Missing EOL at end of file'') ls) = 1"
  using missing_eol_iff_last_not_LF[of letter_file "''f''" "[0x41]" Eof 0]
  by (simp add: letter_file_def LF_def)

text \<open>
  C3 as stated fails: the file with the bytes \<open>A\<close>, CR ends in a line terminator that the
  scan recognizes, and the \<open>Missing EOL at end of file\<close> line is written all the same.
\<close>

theorem missing_eol_after_final_CR:
  "checkOneFile cr_file 0 ''f'' =
     Some ([Checking ''f'',
            ErrorLine ''f'' 1 ''Old-time MacOS newline sequence (CR)'',
            ErrorLine ''f'' 2 ''Missing EOL at end of file''], True)"
  by (simp add: checkOneFile_def cr_file_def initial_def classify_BOL classify_NORMAL
        classify_CR_other normal_case_def report_def LF_def CR_def TAB_def State_defs utf_iffs)


section \<open>Plain text\<close>

lemma normal_case_clean:
  "clean b \<Longrightarrow> normal_case filename b s =
     (if b = LF then s\<lparr>line_count := line_count s + 1, ss := S_BOL\<rparr> else s)"
  by (auto simp: normal_case_def clean_def utf_iffs)

lemma classify_clean:
  assumes "ss s \<in> {S_NORMAL, S_BOL}" and "clean b"
  shows "classify filename b s =
     Some (s\<lparr>line_count := line_count s + (if b = LF then 1 else 0),
             ss := (if b = LF then S_BOL else S_NORMAL)\<rparr>)"
proof (cases "ss s = S_NORMAL")
  case True
  with assms(2) show ?thesis
    by (cases s) (simp add: classify_NORMAL normal_case_clean)
next
  case False
  with assms(1) have "ss s = S_BOL" by simp
  with assms(2) show ?thesis
    by (cases s) (simp add: classify_BOL normal_case_clean)
qed

lemma feed_clean:
  assumes "ss s \<in> {S_NORMAL, S_BOL}" and "\<forall>b \<in> set bs. clean b"
  shows "feed filename bs s =
     Some (s\<lparr>line_count := line_count s + of_nat (count_list bs LF),
             ss := (if bs = [] then ss s else if last bs = LF then S_BOL else S_NORMAL)\<rparr>)"
  using assms
proof (induction bs arbitrary: s)
  case Nil
  then show ?case by simp
next
  case (Cons b bs)
  let ?s1 = "s\<lparr>line_count := line_count s + (if b = LF then 1 else 0),
             ss := (if b = LF then S_BOL else S_NORMAL)\<rparr>"
  from Cons.prems have 1: "classify filename b s = Some ?s1"
    by (simp add: classify_clean)
  have 2: "ss ?s1 \<in> {S_NORMAL, S_BOL}" by simp
  from Cons.prems have 3: "\<forall>b \<in> set bs. clean b" by simp
  from Cons.IH[OF 2 3] 1 show ?case by (simp add: add.assoc add.commute)
qed

text \<open>
  C8, as amended: for every file of fewer than \<open>2^31 - 1\<close> bytes that is not empty and
  holds only bytes of plain text, the output after the \<open>Checking\<close> line holds no incident
  line when the last byte is a line feed, and otherwise the single line
  \<open>Missing EOL at end of file\<close>, with the number of line feeds plus one as its line number.
\<close>

theorem clean_file_output:
  assumes "fs filename = Stream bs e" and "bs \<noteq> []" and "length bs < 2147483647"
    and "\<forall>b \<in> set bs. unat b < 0x80 \<and> (unat b < 0x20 \<longrightarrow> b = LF)"
  shows "checkOneFile fs c0 filename =
     Some ([Checking filename]
           @ (if last bs = LF then []
              else [ErrorLine filename (int (count_list bs LF) + 1)
                      ''Missing EOL at end of file''])
           @ (if e = Eof then [] else [Perror filename]),
           e = Eof)"
proof -
  from assms(4) have cl: "\<forall>b \<in> set bs. clean b" by (simp add: clean_def)
  with assms(2) have "clean (last bs)" by simp
  have i: "ss (initial filename) \<in> {S_NORMAL, S_BOL}" by (simp add: initial_def)
  let ?s1 = "(initial filename)\<lparr>line_count :=
               line_count (initial filename) + of_nat (count_list bs LF),
             ss := (if last bs = LF then S_BOL else S_NORMAL)\<rparr>"
  from feed_clean[OF i cl, of filename] assms(2)
  have f: "feed filename bs (initial filename) = Some ?s1" by simp
  have "ss ?s1 \<in> {S_NORMAL, S_BOL}" by simp
  from classify_clean[OF this \<open>clean (last bs)\<close>, of filename] f assms(2)
  have l: "scanLoop filename bs c0 (initial filename) =
    Some (?s1\<lparr>line_count := line_count ?s1 + (if last bs = LF then 1 else 0),
             ss := (if last bs = LF then S_BOL else S_NORMAL)\<rparr>)"
    by (simp add: scanLoop_feed)
  have "count_list bs LF \<le> length bs" by (rule count_le_length)
  with assms(3) have "Suc (count_list bs LF) < 2147483648" by simp
  then have "sint (of_nat (Suc (count_list bs LF)) :: cint) = int (Suc (count_list bs LF))"
    by (rule sint_of_nat_small)
  then have n: "sint (of_nat (count_list bs LF) + 1 :: cint) = int (count_list bs LF) + 1"
    by (simp add: add.commute)
  from assms(1) l show ?thesis
    by (simp add: checkOneFile_def report_def initial_def State_defs n)
qed

theorem clean_file_output_witness:
  "checkOneFile example_fs 0 ''good'' = Some ([Checking ''good''], True)"
  using clean_file_output[of example_fs "''good''" "[0x41, LF]" Eof 0]
  by (simp add: example_fs_def LF_def)

text \<open>
  C8 as stated fails: the file with the single byte \<open>A\<close> is plain text, and the output
  holds an incident line.
\<close>

theorem clean_file_without_final_LF:
  "checkOneFile letter_file 0 ''f'' =
     Some ([Checking ''f'', ErrorLine ''f'' 1 ''Missing EOL at end of file''], True)"
  by (simp add: checkOneFile_def letter_file_def initial_def classify_BOL classify_NORMAL
        normal_case_def report_def LF_def CR_def TAB_def State_defs utf_iffs)

section \<open>Line terminators\<close>

lemma normal_case_A: "normal_case filename 0x41 s = s"
  by (simp add: normal_case_def utf_iffs LF_def CR_def TAB_def)

lemma normal_case_B: "normal_case filename 0x42 s = s"
  by (simp add: normal_case_def utf_iffs LF_def CR_def TAB_def)

lemma normal_case_letter:
  "c \<in> {0x41, 0x42} \<Longrightarrow> normal_case filename c s = s"
  using normal_case_A normal_case_B by auto

lemma letter_not_trailer: "c \<in> {0x41, 0x42} \<Longrightarrow> \<not> isUtf8Trailer c"
  by (auto simp: utf_iffs)

lemma classify_letter:
  assumes "declared s" and "c \<in> {0x41, 0x42}"
  shows "\<exists>s1. classify filename c s = Some s1 \<and> ss s1 = S_NORMAL"
  using assms(1)
proof (cases rule: declared_cases)
  case NORMAL
  with assms(2) show ?thesis by (simp add: classify_NORMAL normal_case_letter)
next
  case BOL
  with assms(2) show ?thesis by (simp add: classify_BOL normal_case_letter)
next
  case CR
  from assms(2) have "c \<noteq> LF" by (auto simp: LF_def)
  with CR assms(2) show ?thesis by (simp add: classify_CR_other normal_case_letter)
next
  case E3
  with letter_not_trailer[OF assms(2)] show ?thesis by (simp add: classify_EXPECT3 utf_case_def)
next
  case E2
  with letter_not_trailer[OF assms(2)] show ?thesis by (simp add: classify_EXPECT2 utf_case_def)
next
  case E1
  with letter_not_trailer[OF assms(2)] show ?thesis by (simp add: classify_EXPECT1 utf_case_def)
qed

lemma normal_case_CR: "normal_case filename CR s = s\<lparr>ss := S_CR\<rparr>"
  by (simp add: normal_case_def)

lemma scanLoop_CR_LF_letter:
  assumes "ss s1 = S_NORMAL"
  shows "scanLoop filename (CR # LF # 0x42 # rest) c s1 =
     scanLoop filename rest 0x42
       (s1\<lparr>crlf_count := crlf_count s1 + 1,
            out := report (crlf_count s1 + 1) ''Windows newline sequence (CR,LF)''
                     filename (line_count s1) (out s1),
            line_count := line_count s1 + 1,
            ss := S_NORMAL\<rparr>)"
  using assms
  by (simp add: classify_NORMAL normal_case_CR classify_CR_LF classify_BOL normal_case_letter)

lemma scanLoop_CR_letter:
  assumes "ss s1 = S_NORMAL"
  shows "scanLoop filename (CR # 0x42 # rest) c s1 =
     scanLoop filename rest 0x42
       (s1\<lparr>cr_count := cr_count s1 + 1,
            out := report (cr_count s1 + 1) ''Old-time MacOS newline sequence (CR)''
                     filename (line_count s1) (out s1),
            line_count := line_count s1 + 1,
            ss := S_NORMAL\<rparr>)"
proof -
  have "(0x42 :: byte) \<noteq> LF" by (simp add: LF_def)
  with assms show ?thesis
    by (simp add: classify_NORMAL normal_case_CR classify_CR_other normal_case_letter)
qed

lemma scanLoop_CR_other:
  assumes "ss s1 = S_NORMAL" and "b \<noteq> LF"
  shows "scanLoop filename (CR # b # rest) c s1 =
     scanLoop filename rest b
       (normal_case filename b
          (s1\<lparr>cr_count := cr_count s1 + 1,
               out := report (cr_count s1 + 1) ''Old-time MacOS newline sequence (CR)''
                        filename (line_count s1) (out s1),
               line_count := line_count s1 + 1,
               ss := S_NORMAL\<rparr>))"
  using assms
  by (simp add: classify_NORMAL normal_case_CR classify_CR_other)

text \<open>
  C1: wherever the bytes \<open>A\<close>, CR, LF, \<open>B\<close> stand in a file, the scan is in state
  \<open>S_NORMAL\<close> after the \<open>A\<close>, and the scan of the rest of the file starts from the values
  after the \<open>A\<close> changed by one CR,LF incident (its counter incremented once, \<open>report\<close>
  called once) and by one increment of the line counter, in state \<open>S_NORMAL\<close>. Wherever
  the bytes \<open>A\<close>, CR and a byte \<open>b\<close> other than LF stand, the CR causes one bare CR
  incident and one increment of the line counter, and the byte \<open>b\<close> is then classified by
  the case \<open>S_NORMAL\<close> of the switch, neither skipped nor read again: the scan of the rest
  starts from the result of that case. For the byte \<open>B\<close> this case changes nothing.
\<close>

theorem crlf_once_and_bare_cr_reclassifies:
  "\<exists>s0 s1. feed filename pre (initial filename) = Some s0
     \<and> classify filename 0x41 s0 = Some s1 \<and> ss s1 = S_NORMAL
     \<and> scanLoop filename (pre @ 0x41 # CR # LF # 0x42 # rest) c0 (initial filename) =
         scanLoop filename rest 0x42
           (s1\<lparr>crlf_count := crlf_count s1 + 1,
                out := report (crlf_count s1 + 1) ''Windows newline sequence (CR,LF)''
                         filename (line_count s1) (out s1),
                line_count := line_count s1 + 1,
                ss := S_NORMAL\<rparr>)
     \<and> (b \<noteq> LF \<longrightarrow>
          classify filename b (s1\<lparr>ss := S_CR\<rparr>) =
            Some (normal_case filename b
                   (s1\<lparr>cr_count := cr_count s1 + 1,
                        out := report (cr_count s1 + 1) ''Old-time MacOS newline sequence (CR)''
                                 filename (line_count s1) (out s1),
                        line_count := line_count s1 + 1,
                        ss := S_NORMAL\<rparr>))
          \<and> scanLoop filename (pre @ 0x41 # CR # b # rest) c0 (initial filename) =
              scanLoop filename rest b
                (normal_case filename b
                   (s1\<lparr>cr_count := cr_count s1 + 1,
                        out := report (cr_count s1 + 1) ''Old-time MacOS newline sequence (CR)''
                                 filename (line_count s1) (out s1),
                        line_count := line_count s1 + 1,
                        ss := S_NORMAL\<rparr>)))
     \<and> scanLoop filename (pre @ 0x41 # CR # 0x42 # rest) c0 (initial filename) =
         scanLoop filename rest 0x42
           (s1\<lparr>cr_count := cr_count s1 + 1,
                out := report (cr_count s1 + 1) ''Old-time MacOS newline sequence (CR)''
                         filename (line_count s1) (out s1),
                line_count := line_count s1 + 1,
                ss := S_NORMAL\<rparr>)"
proof -
  from feed_declared[OF initial_declared, of filename pre]
  obtain s0 where s0: "feed filename pre (initial filename) = Some s0" "declared s0" by blast
  from classify_letter[OF s0(2), of "0x41" filename]
  obtain s1 where s1: "classify filename 0x41 s0 = Some s1" "ss s1 = S_NORMAL" by auto
  let ?cr = "s1\<lparr>cr_count := cr_count s1 + 1,
                out := report (cr_count s1 + 1) ''Old-time MacOS newline sequence (CR)''
                         filename (line_count s1) (out s1),
                line_count := line_count s1 + 1,
                ss := S_NORMAL\<rparr>"
  have a: "scanLoop filename (pre @ 0x41 # CR # LF # 0x42 # rest) c0 (initial filename) =
      scanLoop filename (CR # LF # 0x42 # rest) 0x41 s1"
    using s0(1) s1(1) by (simp add: scanLoop_append)
  have b: "scanLoop filename (pre @ 0x41 # CR # x # rest) c0 (initial filename) =
      scanLoop filename (CR # x # rest) 0x41 s1" for x
    using s0(1) s1(1) by (simp add: scanLoop_append)
  have 1: "scanLoop filename (pre @ 0x41 # CR # LF # 0x42 # rest) c0 (initial filename) =
         scanLoop filename rest 0x42
           (s1\<lparr>crlf_count := crlf_count s1 + 1,
                out := report (crlf_count s1 + 1) ''Windows newline sequence (CR,LF)''
                         filename (line_count s1) (out s1),
                line_count := line_count s1 + 1,
                ss := S_NORMAL\<rparr>)"
    unfolding a using s1(2) by (rule scanLoop_CR_LF_letter)
  have 2: "classify filename b (s1\<lparr>ss := S_CR\<rparr>) = Some (normal_case filename b ?cr)"
    if "b \<noteq> LF"
    using that by (simp add: classify_CR_other)
  have 3: "scanLoop filename (pre @ 0x41 # CR # b # rest) c0 (initial filename) =
      scanLoop filename rest b (normal_case filename b ?cr)" if "b \<noteq> LF"
    unfolding b using s1(2) that by (rule scanLoop_CR_other)
  have 4: "scanLoop filename (pre @ 0x41 # CR # 0x42 # rest) c0 (initial filename) =
      scanLoop filename rest 0x42 ?cr"
    unfolding b using s1(2) by (rule scanLoop_CR_letter)
  from s0(1) s1 1 2 3 4 show ?thesis by blast
qed

theorem crlf_once_and_bare_cr_reclassifies_witness:
  "scanLoop ''f'' [0x41, CR, LF, 0x42] 0 (initial ''f'') =
     Some \<lparr>ss = S_NORMAL, line_count = 1, tab_count = 0, crlf_count = 1, cr_count = 0,
       c1_count = 0, bad_utf_count = 0,
       out = [Checking ''f'', ErrorLine ''f'' 1 ''Windows newline sequence (CR,LF)'']\<rparr>
   \<and> scanLoop ''f'' [0x41, CR, 0x42] 0 (initial ''f'') =
     Some \<lparr>ss = S_NORMAL, line_count = 1, tab_count = 0, crlf_count = 0, cr_count = 1,
       c1_count = 0, bad_utf_count = 0,
       out = [Checking ''f'', ErrorLine ''f'' 1 ''Old-time MacOS newline sequence (CR)'']\<rparr>
   \<and> scanLoop ''f'' [0x41, CR, TAB, 0x42] 0 (initial ''f'') =
     Some \<lparr>ss = S_NORMAL, line_count = 1, tab_count = 1, crlf_count = 0, cr_count = 1,
       c1_count = 0, bad_utf_count = 0,
       out = [Checking ''f'', ErrorLine ''f'' 1 ''Old-time MacOS newline sequence (CR)'',
              ErrorLine ''f'' 2 ''Tab character'']\<rparr>"
proof -
  have 1: "classify ''f'' 0x41 (initial ''f'') = Some ((initial ''f'')\<lparr>ss := S_NORMAL\<rparr>)"
    by (simp add: classify_BOL initial_def normal_case_A)
  have 2: "classify ''f'' 0x42 s = Some s" if "ss s = S_NORMAL" for s
    using that by (simp add: classify_NORMAL normal_case_B)
  have 3: "TAB \<noteq> LF" by simp
  from crlf_once_and_bare_cr_reclassifies[of "''f''" "[]" "[]" 0 TAB]
    crlf_once_and_bare_cr_reclassifies[of "''f''" "[]" "[0x42]" 0 TAB] 1 3
  show ?thesis
    by (simp add: 2) (simp add: initial_def report_def normal_case_def 2)
qed

section \<open>Multibyte sequences\<close>


lemma normal_case_Trailer:
  "isUtf8Trailer t \<Longrightarrow> normal_case filename t s =
     s\<lparr>bad_utf_count := bad_utf_count s + 1,
       out := report (bad_utf_count s + 1) ''Bad multibyte sequence'' filename
                (line_count s) (out s)\<rparr>"
  by (auto simp: normal_case_def utf_iffs)

lemma classify_text:
  "ss s \<in> {S_NORMAL, S_BOL} \<Longrightarrow>
     classify filename c s = Some (normal_case filename c (s\<lparr>ss := S_NORMAL\<rparr>))"
  by (cases s) (auto simp: classify_NORMAL classify_BOL)










section \<open>Bounds on the counters\<close>

lemma within_refl: "within 0 s s"
  by (simp add: within_def)

lemma within_trans: "within m s s1 \<Longrightarrow> within n s1 s2 \<Longrightarrow> within (m + n) s s2"
  by (fastforce simp: within_def)

lemma normal_case_within: "within (Suc 0) s (normal_case filename c s)"
  by (simp add: within_def normal_case_def unat_inc_le)

lemma utf_case_within: "within (Suc 0) s (utf_case k filename c s)"
  by (simp add: within_def utf_case_def unat_inc_le)

lemma classify_within:
  assumes "classify filename c s = Some s'"
  shows "within (Suc 0) s s'"
proof (cases "declared s")
  case False
  then have "classify filename c s = None"
    unfolding declared_def by (rule classify_undeclared)
  with assms show ?thesis by simp
next
  case True
  then show ?thesis
  proof (cases rule: declared_cases)
    case NORMAL
    with assms have "s' = normal_case filename c s" by (simp add: classify_NORMAL)
    then show ?thesis by (simp add: normal_case_within)
  next
    case BOL
    with assms have "s' = normal_case filename c (s\<lparr>ss := S_NORMAL\<rparr>)"
      by (simp add: classify_BOL)
    with normal_case_within[of "s\<lparr>ss := S_NORMAL\<rparr>" filename c] show ?thesis
      by (simp add: within_def)
  next
    case CR
    show ?thesis
    proof (cases "c = LF")
      case True
      with CR assms show ?thesis by (auto simp: classify_CR_LF within_def unat_inc_le)
    next
      case False
      with CR assms show ?thesis
        by (auto simp: classify_CR_other within_def normal_case_def unat_inc_le)
    qed
  next
    case E3
    with assms have "s' = utf_case S_UTF_EXPECT2 filename c s" by (simp add: classify_EXPECT3)
    then show ?thesis by (simp add: utf_case_within)
  next
    case E2
    with assms have "s' = utf_case S_UTF_EXPECT1 filename c s" by (simp add: classify_EXPECT2)
    then show ?thesis by (simp add: utf_case_within)
  next
    case E1
    with assms have "s' = utf_case S_NORMAL filename c s" by (simp add: classify_EXPECT1)
    then show ?thesis by (simp add: utf_case_within)
  qed
qed

lemma feed_within:
  "feed filename bs s = Some s' \<Longrightarrow> within (length bs) s s'"
proof (induction bs arbitrary: s)
  case Nil
  then show ?case by (simp add: within_refl)
next
  case (Cons b bs)
  then obtain s1 where 1: "classify filename b s = Some s1" and 2: "feed filename bs s1 = Some s'"
    by (auto split: option.splits)
  from within_trans[OF classify_within[OF 1] Cons.IH[OF 2]] show ?case
    by simp
qed

lemma feed_counters_bounded:
  assumes "feed filename bs (initial filename) = Some s"
  shows "\<forall>k \<in> {line_count, tab_count, crlf_count, cr_count, c1_count, bad_utf_count}.
           unat (k s) \<le> length bs"
  using feed_within[OF assms] by (simp add: within_def initial_def)

lemma scanLoop_counters_bounded:
  assumes "scanLoop filename bs c (initial filename) = Some s"
  shows "\<forall>k \<in> {line_count, tab_count, crlf_count, cr_count, c1_count, bad_utf_count}.
           unat (k s) \<le> length bs + 1"
proof -
  from assms obtain s1 where 1: "feed filename bs (initial filename) = Some s1"
    and 2: "classify filename (last (c # bs)) s1 = Some s"
    unfolding scanLoop_feed by (cases "feed filename bs (initial filename)") auto
  from within_trans[OF feed_within[OF 1] classify_within[OF 2]]
  show ?thesis by (simp add: within_def initial_def)
qed

section \<open>The line counter\<close>

lemma announced_special [simp]: "announced LF = 0" "announced CR = 0" "announced TAB = 0"
  by (simp_all add: announced_def utf_iffs)

lemma announced_Trailer: "isUtf8Trailer c \<Longrightarrow> announced c = 0"
  by (simp add: announced_def utf_iffs)



lemma line_ends_CR_LF: "line_ends 0 (CR # LF # bs) = Suc (line_ends 0 bs)"
  by simp

lemma line_ends_CR_other: "b \<noteq> LF \<Longrightarrow> line_ends 0 (CR # b # bs) = Suc (line_ends 0 (b # bs))"
  by simp










section \<open>Tabs\<close>

lemma normal_case_pend:
  "ss s = S_NORMAL \<Longrightarrow>
     tab_count (normal_case filename b s) + of_nat (text_tabs (pend (normal_case filename b s)) bs)
       = tab_count s + of_nat (text_tabs 0 (b # bs))"
  by (simp add: normal_case_def pend_def State_defs announced_def utf_iffs)

lemma utf_case_pend:
  assumes "pend s = Suc n" and "pend (s\<lparr>ss := k'\<rparr>) = n"
  shows "tab_count (utf_case k' filename b s) + of_nat (text_tabs (pend (utf_case k' filename b s)) bs)
         = tab_count s + of_nat (text_tabs (pend s) (b # bs))"
  using assms
  by (auto simp: utf_case_def pend_def State_defs split: if_splits)

lemma classify_text_tabs:
  assumes "classify filename b s = Some s1"
  shows "tab_count s1 + of_nat (text_tabs (pend s1) bs)
         = tab_count s + of_nat (text_tabs (pend s) (b # bs))"
proof (cases "declared s")
  case False
  then have "classify filename b s = None"
    unfolding declared_def by (rule classify_undeclared)
  with assms show ?thesis by simp
next
  case True
  then show ?thesis
  proof (cases rule: declared_cases)
    case NORMAL
    with assms have "s1 = normal_case filename b s" by (simp add: classify_NORMAL)
    with NORMAL normal_case_pend[of s filename b bs] show ?thesis
      by (simp add: pend_def State_defs)
  next
    case BOL
    with assms have "s1 = normal_case filename b (s\<lparr>ss := S_NORMAL\<rparr>)"
      by (simp add: classify_BOL)
    with BOL normal_case_pend[of "s\<lparr>ss := S_NORMAL\<rparr>" filename b bs] show ?thesis
      by (simp add: pend_def State_defs)
  next
    case CR
    show ?thesis
    proof (cases "b = LF")
      case True
      with CR assms show ?thesis
        by (auto simp: classify_CR_LF pend_def State_defs)
    next
      case False
      let ?s = "s\<lparr>cr_count := cr_count s + 1,
               out := report (cr_count s + 1) ''Old-time MacOS newline sequence (CR)''
                        filename (line_count s) (out s),
               line_count := line_count s + 1,
               ss := S_NORMAL\<rparr>"
      from False CR assms have "s1 = normal_case filename b ?s"
        by (simp add: classify_CR_other)
      with normal_case_pend[of ?s filename b bs] False CR show ?thesis
        by (simp add: pend_def State_defs)
    qed
  next
    case E3
    with assms have "s1 = utf_case S_UTF_EXPECT2 filename b s" by (simp add: classify_EXPECT3)
    with E3 utf_case_pend[of s 2 S_UTF_EXPECT2 filename b bs] show ?thesis
      by (simp add: pend_def State_defs)
  next
    case E2
    with assms have "s1 = utf_case S_UTF_EXPECT1 filename b s" by (simp add: classify_EXPECT2)
    with E2 utf_case_pend[of s 1 S_UTF_EXPECT1 filename b bs] show ?thesis
      by (simp add: pend_def State_defs)
  next
    case E1
    with assms have "s1 = utf_case S_NORMAL filename b s" by (simp add: classify_EXPECT1)
    with E1 utf_case_pend[of s 0 S_NORMAL filename b bs] show ?thesis
      by (simp add: pend_def State_defs)
  qed
qed

lemma feed_text_tabs:
  "feed filename bs s = Some s'
     \<Longrightarrow> tab_count s' = tab_count s + of_nat (text_tabs (pend s) bs)"
proof (induction bs arbitrary: s)
  case Nil
  then show ?case by simp
next
  case (Cons b bs)
  then obtain s1 where 1: "classify filename b s = Some s1" and 2: "feed filename bs s1 = Some s'"
    by (auto split: option.splits)
  from classify_text_tabs[OF 1, of bs] Cons.IH[OF 2] show ?case by simp
qed

lemma text_tabs_le: "text_tabs n bs \<le> length bs"
  by (induction n bs rule: text_tabs.induct) auto

text \<open>Tab lines written by one run of the switch.\<close>

lemma normal_case_tab_lines:
  "(tab_count (normal_case filename c s) = tab_count s
      \<or> tab_count (normal_case filename c s) = tab_count s + 1)
   \<and> filter (is_msg ''Tab character'') (out (normal_case filename c s))
       = filter (is_msg ''Tab character'') (out s) @ tab_line filename s (normal_case filename c s)"
  by (simp add: normal_case_def report_def tab_line_def)

lemma utf_case_tab_lines:
  "tab_count (utf_case k filename c s) = tab_count s
       \<and> filter (is_msg ''Tab character'') (out (utf_case k filename c s))
           = filter (is_msg ''Tab character'') (out s)"
  by (simp add: utf_case_def report_def)

lemma classify_tab_lines:
  assumes "classify filename c s = Some s'"
  shows "(tab_count s' = tab_count s \<or> tab_count s' = tab_count s + 1)
       \<and> filter (is_msg ''Tab character'') (out s')
           = filter (is_msg ''Tab character'') (out s) @ tab_line filename s s'"
proof (cases "declared s")
  case False
  then have "classify filename c s = None"
    unfolding declared_def by (rule classify_undeclared)
  with assms show ?thesis by simp
next
  case True
  then show ?thesis
  proof (cases rule: declared_cases)
    case NORMAL
    with assms have "s' = normal_case filename c s" by (simp add: classify_NORMAL)
    with normal_case_tab_lines[of filename c s] show ?thesis by simp
  next
    case BOL
    with assms have "s' = normal_case filename c (s\<lparr>ss := S_NORMAL\<rparr>)"
      by (simp add: classify_BOL)
    with normal_case_tab_lines[of filename c "s\<lparr>ss := S_NORMAL\<rparr>"] show ?thesis
      by (simp add: tab_line_def)
  next
    case CR
    show ?thesis
    proof (cases "c = LF")
      case True
      with CR assms show ?thesis
        by (auto simp: classify_CR_LF report_def tab_line_def)
    next
      case False
      let ?s = "s\<lparr>cr_count := cr_count s + 1,
               out := report (cr_count s + 1) ''Old-time MacOS newline sequence (CR)''
                        filename (line_count s) (out s),
               line_count := line_count s + 1,
               ss := S_NORMAL\<rparr>"
      from False CR assms have "s' = normal_case filename c ?s"
        by (simp add: classify_CR_other)
      with normal_case_tab_lines[of filename c ?s] show ?thesis
        by (simp add: tab_line_def report_def)
    qed
  next
    case E3
    with assms have "s' = utf_case S_UTF_EXPECT2 filename c s" by (simp add: classify_EXPECT3)
    with utf_case_tab_lines[of S_UTF_EXPECT2 filename c s] show ?thesis
      by (simp add: tab_line_def)
  next
    case E2
    with assms have "s' = utf_case S_UTF_EXPECT1 filename c s" by (simp add: classify_EXPECT2)
    with utf_case_tab_lines[of S_UTF_EXPECT1 filename c s] show ?thesis
      by (simp add: tab_line_def)
  next
    case E1
    with assms have "s' = utf_case S_NORMAL filename c s" by (simp add: classify_EXPECT1)
    with utf_case_tab_lines[of S_NORMAL filename c s] show ?thesis
      by (simp add: tab_line_def)
  qed
qed

lemma classify_tab_lines_later:
  assumes "classify filename c s = Some s'"
    and "1 \<le> unat (tab_count s)" and "unat (tab_count s) < 4294967295"
  shows "1 \<le> unat (tab_count s') \<and> unat (tab_count s') \<le> Suc (unat (tab_count s))
       \<and> filter (is_msg ''Tab character'') (out s') = filter (is_msg ''Tab character'') (out s)"
proof -
  from assms(2) have nz: "tab_count s \<noteq> 0" by (auto simp: unat_0_iff[symmetric])
  from classify_tab_lines[OF assms(1)] nz
  have f: "filter (is_msg ''Tab character'') (out s') = filter (is_msg ''Tab character'') (out s)"
    and t: "tab_count s' = tab_count s \<or> tab_count s' = tab_count s + 1"
    by (simp_all add: tab_line_def)
  from t assms(2,3) have "1 \<le> unat (tab_count s') \<and> unat (tab_count s') \<le> Suc (unat (tab_count s))"
    by (auto simp: unat_inc)
  with f show ?thesis by simp
qed

lemma feed_tab_lines_later:
  assumes "feed filename bs s = Some s'"
    and "1 \<le> unat (tab_count s)" and "unat (tab_count s) + length bs < 4294967296"
  shows "1 \<le> unat (tab_count s')
       \<and> filter (is_msg ''Tab character'') (out s') = filter (is_msg ''Tab character'') (out s)"
  using assms
proof (induction bs arbitrary: s)
  case Nil
  then show ?case by simp
next
  case (Cons b bs)
  then obtain s1 where 1: "classify filename b s = Some s1" and 2: "feed filename bs s1 = Some s'"
    by (auto split: option.splits)
  from Cons.prems(3) have r: "unat (tab_count s) < 4294967295" by simp
  from classify_tab_lines_later[OF 1 Cons.prems(2) r]
  have 3: "1 \<le> unat (tab_count s1)" and 4: "unat (tab_count s1) \<le> Suc (unat (tab_count s))"
    and 5: "filter (is_msg ''Tab character'') (out s1) = filter (is_msg ''Tab character'') (out s)"
    by simp_all
  from 4 Cons.prems(3) have 6: "unat (tab_count s1) + length bs < 4294967296" by simp
  from Cons.IH[OF 2 3 6] 5 show ?case by simp
qed

lemma scanLoop_as_feed:
  "scanLoop filename bs c s = feed filename (bs @ [last (c # bs)]) s"
  by (induction bs arbitrary: c s) (auto split: option.splits)

lemma scanLoop_tab_lines_later:
  assumes "scanLoop filename bs c s = Some s'"
    and "1 \<le> unat (tab_count s)" and "unat (tab_count s) + length bs + 1 < 4294967296"
  shows "filter (is_msg ''Tab character'') (out s') = filter (is_msg ''Tab character'') (out s)"
proof -
  from assms(1) have "feed filename (bs @ [last (c # bs)]) s = Some s'"
    by (simp only: scanLoop_as_feed)
  from feed_tab_lines_later[OF this assms(2)] assms(3) show ?thesis by simp
qed

lemma feed_no_tab_line:
  assumes "feed filename bs s = Some s'" and "tab_count s = 0" and "tab_count s' = 0"
    and "length bs < 4294967295"
  shows "filter (is_msg ''Tab character'') (out s') = filter (is_msg ''Tab character'') (out s)"
  using assms
proof (induction bs arbitrary: s)
  case Nil
  then show ?case by simp
next
  case (Cons b bs)
  then obtain s1 where 1: "classify filename b s = Some s1" and 2: "feed filename bs s1 = Some s'"
    by (auto split: option.splits)
  from classify_tab_lines[OF 1] Cons.prems(2)
  have t: "tab_count s1 = 0 \<or> tab_count s1 = 1"
    and f: "filter (is_msg ''Tab character'') (out s1)
           = filter (is_msg ''Tab character'') (out s) @ tab_line filename s s1" by simp_all
  have z: "tab_count s1 = 0"
  proof (rule ccontr)
    assume "tab_count s1 \<noteq> 0"
    with t have one: "tab_count s1 = 1" by simp
    then have a: "1 \<le> unat (tab_count s1)" by simp
    from one Cons.prems(4) have b: "unat (tab_count s1) + length bs < 4294967296" by simp
    from feed_tab_lines_later[OF 2 a b] Cons.prems(3) show False by simp
  qed
  from Cons.prems(4) have "length bs < 4294967295" by simp
  from Cons.IH[OF 2 z Cons.prems(3) this] f z show ?case by (simp add: tab_line_def)
qed

lemma normal_case_TAB:
  "normal_case filename TAB s =
     s\<lparr>tab_count := tab_count s + 1,
       out := report (tab_count s + 1) ''Tab character'' filename (line_count s) (out s)\<rparr>"
  by (simp add: normal_case_def)

lemma classify_TAB_text:
  assumes "ss s \<in> {S_NORMAL, S_BOL, S_CR}"
  shows "\<exists>s2. classify filename TAB s = Some s2 \<and> tab_count s2 = tab_count s + 1
           \<and> line_count s2 = line_count s + (if ss s = S_CR then 1 else 0)
           \<and> declared s2"
proof -
  from assms consider "ss s = S_NORMAL" | "ss s = S_BOL" | "ss s = S_CR" by blast
  then show ?thesis
  proof cases
    case 1
    then show ?thesis
      by (simp add: classify_NORMAL normal_case_TAB declared_def State_defs)
  next
    case 2
    then show ?thesis
      by (simp add: classify_BOL normal_case_TAB declared_def State_defs)
  next
    case 3
    then show ?thesis
      by (simp add: classify_CR_other normal_case_TAB declared_def State_defs)
  qed
qed

lemma TAB_not_trailer [simp]: "\<not> isUtf8Trailer TAB"
  by (simp add: isUtf8Trailer_iff)

lemma classify_TAB_expected:
  assumes "ss u \<in> {S_UTF_EXPECT3, S_UTF_EXPECT2, S_UTF_EXPECT1}"
  shows "classify filename TAB u =
     Some (u\<lparr>bad_utf_count := bad_utf_count u + 1,
             out := report (bad_utf_count u + 1) ''Bad multibyte sequence'' filename
                      (line_count u) (out u),
             ss := S_NORMAL\<rparr>)"
proof -
  from assms consider "ss u = S_UTF_EXPECT3" | "ss u = S_UTF_EXPECT2" | "ss u = S_UTF_EXPECT1"
    by blast
  then show ?thesis
  proof cases
    case 1
    then show ?thesis by (simp add: classify_EXPECT3 utf_case_def)
  next
    case 2
    then show ?thesis by (simp add: classify_EXPECT2 utf_case_def)
  next
    case 3
    then show ?thesis by (simp add: classify_EXPECT1 utf_case_def)
  qed
qed

lemma five_tabs:
  "\<exists>s. scanLoop filename [TAB, LF, TAB, LF, TAB, LF, TAB, LF, TAB, LF] c0 (initial filename)
          = Some s
       \<and> tab_count s = 5
       \<and> filter (is_msg ''Tab character'') (out s) = [ErrorLine filename 1 ''Tab character'']"
  by (simp add: initial_def classify_BOL classify_NORMAL normal_case_def report_def)

text \<open>
  C4, as amended: when a file of fewer than \<open>2^31 - 1\<close> bytes holds a tab that is read
  while no continuation byte is expected, and no tab was counted before it, the output
  holds exactly one \<open>Tab character\<close> line, and its number is the line counter plus one at
  the time this tab is classified (after the increment for a bare CR just before it). A
  tab that is read in place of an expected continuation byte is consumed by the bad
  multibyte incident: reading it leaves the tab counter as it is and writes no
  \<open>Tab character\<close> line. After any number of bytes of such a file read, the tab counter
  is the number of tabs among them that were read while no continuation byte was
  expected. A file with five tabs on five lines, each ended by LF, gives one line and the
  counter 5. The further classification of the last byte of a file after the failed read
  is left aside in the statements on the bytes as they are read.
\<close>

theorem first_tab_reported_once:
  assumes "fs filename = Stream (pre @ TAB # post) e"
    and "length (pre @ TAB # post) < 2147483647"
    and "feed filename pre (initial filename) = Some s1"
    and "tab_count s1 = 0"
    and "ss s1 \<notin> {S_UTF_EXPECT3, S_UTF_EXPECT2, S_UTF_EXPECT1}"
  shows "(\<exists>ls. checkOneFile fs c0 filename = Some (ls, e = Eof)
            \<and> filter (is_msg ''Tab character'') ls
                = [ErrorLine filename
                     (sint (line_count s1 + (if ss s1 = S_CR then 1 else 0) + 1))
                     ''Tab character''])
       \<and> (ss u \<in> {S_UTF_EXPECT3, S_UTF_EXPECT2, S_UTF_EXPECT1} \<longrightarrow>
            classify filename TAB u =
              Some (u\<lparr>bad_utf_count := bad_utf_count u + 1,
                      out := report (bad_utf_count u + 1) ''Bad multibyte sequence'' filename
                               (line_count u) (out u),
                      ss := S_NORMAL\<rparr>))
       \<and> (length bs < 2147483647 \<longrightarrow>
            (\<exists>s. feed filename bs (initial filename) = Some s
               \<and> sint (tab_count s) = int (text_tabs 0 bs)))
       \<and> (\<exists>s. scanLoop filename [TAB, LF, TAB, LF, TAB, LF, TAB, LF, TAB, LF] c0
                 (initial filename) = Some s
              \<and> tab_count s = 5
              \<and> filter (is_msg ''Tab character'') (out s)
                  = [ErrorLine filename 1 ''Tab character''])"
proof -
  let ?L = "ErrorLine filename (sint (line_count s1 + (if ss s1 = S_CR then 1 else 0) + 1))
              ''Tab character''"
  from feed_declared[OF initial_declared[of filename], of filename pre] assms(3)
  have "declared s1" by auto
  with assms(5) have st: "ss s1 \<in> {S_NORMAL, S_BOL, S_CR}" by (auto simp: declared_def)
  from classify_TAB_text[OF st, of filename]
  obtain s2 where s2: "classify filename TAB s1 = Some s2" "tab_count s2 = tab_count s1 + 1"
    "line_count s2 = line_count s1 + (if ss s1 = S_CR then 1 else 0)" "declared s2" by blast
  from assms(2) have lp: "length pre < 4294967295" by simp
  have "filter (is_msg ''Tab character'') (out s1)
          = filter (is_msg ''Tab character'') (out (initial filename))"
    using assms(3) _ assms(4) lp by (rule feed_no_tab_line) (simp add: initial_def)
  then have none: "filter (is_msg ''Tab character'') (out s1) = []" by (simp add: initial_def)
  from classify_tab_lines[OF s2(1)] assms(4) s2(2,3) none
  have one: "filter (is_msg ''Tab character'') (out s2) = [?L]" by (simp add: tab_line_def)
  from scanLoop_total[OF s2(4), of filename post TAB]
  obtain sf where sf: "scanLoop filename post TAB s2 = Some sf" by blast
  from s2(2) assms(4) have t1: "unat (tab_count s2) = 1" by simp
  with assms(2) have "1 \<le> unat (tab_count s2)"
    and "unat (tab_count s2) + length post + 1 < 4294967296" by simp_all
  with scanLoop_tab_lines_later[OF sf] one
  have fin: "filter (is_msg ''Tab character'') (out sf) = [?L]" by simp
  from assms(3) s2(1) sf
  have "scanLoop filename (pre @ TAB # post) c0 (initial filename) = Some sf"
    by (simp add: scanLoop_append)
  with assms(1) fin
  have 1: "\<exists>ls. checkOneFile fs c0 filename = Some (ls, e = Eof)
            \<and> filter (is_msg ''Tab character'') ls = [?L]"
    by (simp add: checkOneFile_def report_def Let_def)
  have 2: "\<exists>s. feed filename bs (initial filename) = Some s
              \<and> sint (tab_count s) = int (text_tabs 0 bs)" if b: "length bs < 2147483647"
  proof -
    from feed_declared[OF initial_declared, of filename bs]
    obtain s where s: "feed filename bs (initial filename) = Some s" by blast
    from feed_text_tabs[OF s] have m: "tab_count s = of_nat (text_tabs 0 bs)"
      by (simp add: pend_def initial_def State_defs)
    from text_tabs_le[of 0 bs] b have "text_tabs 0 bs < 2147483648" by simp
    with m have "sint (tab_count s) = int (text_tabs 0 bs)"
      by (simp add: sint_of_nat_small)
    with s show ?thesis by simp
  qed
  from 1 2 five_tabs[of filename c0] classify_TAB_expected[of u filename]
  show ?thesis by blast
qed

theorem first_tab_reported_once_witness:
  "(\<exists>ls. checkOneFile tab_on_third_line 0 ''f'' = Some (ls, True)
      \<and> filter (is_msg ''Tab character'') ls = [ErrorLine ''f'' 3 ''Tab character''])
   \<and> classify ''f'' TAB ((initial ''f'')\<lparr>ss := S_UTF_EXPECT2\<rparr>) =
       Some ((initial ''f'')\<lparr>bad_utf_count := 1,
          out := [Checking ''f'', ErrorLine ''f'' 1 ''Bad multibyte sequence''],
          ss := S_NORMAL\<rparr>)
   \<and> (\<exists>s. feed ''f'' [0xE2, TAB, TAB] (initial ''f'') = Some s \<and> sint (tab_count s) = 1)"
proof -
  have f: "feed ''f'' [0x41, LF, 0x42, CR] (initial ''f'') =
     Some \<lparr>ss = S_CR, line_count = 1, tab_count = 0, crlf_count = 0, cr_count = 0,
       c1_count = 0, bad_utf_count = 0, out = [Checking ''f'']\<rparr>"
    by (simp add: initial_def classify_BOL classify_NORMAL normal_case_def report_def
          LF_def CR_def TAB_def State_defs utf_iffs)
  have t: "tab_on_third_line ''f'' = Stream ([0x41, LF, 0x42, CR] @ TAB # [TAB, LF]) Eof"
    by (simp add: tab_on_third_line_def)
  have n: "text_tabs 0 [0xE2, TAB, TAB] = 1"
    by code_simp
  from first_tab_reported_once[of tab_on_third_line "''f''" "[0x41, LF, 0x42, CR]" "[TAB, LF]"
      Eof _ 0 "(initial ''f'')\<lparr>ss := S_UTF_EXPECT2\<rparr>" "[0xE2, TAB, TAB]", OF t _ f] n
  show ?thesis
    by (simp add: State_defs initial_def report_def)
qed

text \<open>
  C4 as stated fails: the file with the bytes 0xE2, TAB, LF holds a tab, and the output
  holds no \<open>Tab character\<close> line.
\<close>

theorem tab_after_lead_is_swallowed:
  "checkOneFile lead_then_tab 0 ''f'' =
     Some ([Checking ''f'', ErrorLine ''f'' 1 ''Bad multibyte sequence''], True)"
  by (simp add: checkOneFile_def lead_then_tab_def initial_def classify_BOL classify_NORMAL
        classify_EXPECT2 utf_case_def
        normal_case_def report_def LF_def CR_def TAB_def State_defs utf_iffs)

section \<open>The iteration after the last byte\<close>

lemma report_not_first: "n \<noteq> 1 \<Longrightarrow> report n msg filename l ls = ls"
  by (simp add: report_def)

lemma second_increment_not_1:
  assumes "unat (x :: cint) < 4294967294"
  shows "x + 1 + 1 \<noteq> 1"
proof
  assume "x + 1 + 1 = 1"
  then have "x + 1 = 0" by (simp add: add.commute)
  then have "unat (x + 1) = 0" by (simp only: unat_0)
  with assms show False by (simp add: unat_inc split: if_splits)
qed

lemma normal_case_control:
  assumes "unat b < 0x20" and "b \<notin> {TAB, LF, CR}"
  shows "normal_case filename b s =
     s\<lparr>c1_count := c1_count s + 1,
       out := report (c1_count s + 1) ''Unexpected control character'' filename
                (line_count s) (out s)\<rparr>"
  using assms by (auto simp: normal_case_def utf_iffs)

lemma normal_case_LF: "normal_case filename LF s = s\<lparr>line_count := line_count s + 1, ss := S_BOL\<rparr>"
  by (simp add: normal_case_def)

lemma final_TAB:
  assumes "ss s1 \<in> {S_NORMAL, S_BOL}" and "unat (tab_count s1) < 4294967294"
  shows "scanLoop filename [TAB] c s1 =
     Some (s1\<lparr>ss := S_NORMAL, tab_count := tab_count s1 + 2,
              out := report (tab_count s1 + 1) ''Tab character'' filename
                       (line_count s1) (out s1)\<rparr>)"
proof -
  from assms(2) have "tab_count s1 + 1 + 1 \<noteq> 1" by (rule second_increment_not_1)
  with assms(1) show ?thesis
    by (cases s1) (simp add: classify_text classify_NORMAL normal_case_TAB report_not_first)
qed

lemma final_Trailer:
  assumes "ss s1 \<in> {S_NORMAL, S_BOL}" and "unat (bad_utf_count s1) < 4294967294"
    and "isUtf8Trailer t"
  shows "scanLoop filename [t] c s1 =
     Some (s1\<lparr>ss := S_NORMAL, bad_utf_count := bad_utf_count s1 + 2,
              out := report (bad_utf_count s1 + 1) ''Bad multibyte sequence'' filename
                       (line_count s1) (out s1)\<rparr>)"
proof -
  from assms(2) have "bad_utf_count s1 + 1 + 1 \<noteq> 1" by (rule second_increment_not_1)
  with assms(1,3) show ?thesis
    by (cases s1) (simp add: classify_text classify_NORMAL normal_case_Trailer report_not_first)
qed

lemma final_control:
  assumes "ss s1 \<in> {S_NORMAL, S_BOL}" and "unat (c1_count s1) < 4294967294"
    and "unat b < 0x20" and "b \<notin> {TAB, LF, CR}"
  shows "scanLoop filename [b] c s1 =
     Some (s1\<lparr>ss := S_NORMAL, c1_count := c1_count s1 + 2,
              out := report (c1_count s1 + 1) ''Unexpected control character'' filename
                       (line_count s1) (out s1)\<rparr>)"
proof -
  from assms(2) have "c1_count s1 + 1 + 1 \<noteq> 1" by (rule second_increment_not_1)
  with assms(1) normal_case_control[OF assms(3,4)] show ?thesis
    by (cases s1) (simp add: classify_text classify_NORMAL report_not_first)
qed

lemma final_LF:
  assumes "ss s1 \<in> {S_NORMAL, S_BOL}"
  shows "scanLoop filename [LF] c s1 = Some (s1\<lparr>line_count := line_count s1 + 2, ss := S_BOL\<rparr>)"
  using assms
  by (cases s1) (simp add: classify_text classify_BOL normal_case_LF)

lemma final_CR_LF:
  assumes "ss s1 = S_CR"
  shows "scanLoop filename [LF] c s1 =
     Some (s1\<lparr>crlf_count := crlf_count s1 + 1,
              out := report (crlf_count s1 + 1) ''Windows newline sequence (CR,LF)''
                       filename (line_count s1) (out s1),
              line_count := line_count s1 + 2,
              ss := S_BOL\<rparr>)"
  using assms
  by (cases s1) (simp add: classify_CR_LF classify_BOL normal_case_LF)

text \<open>
  C10, as amended: on an empty file the loop body runs once and classifies the
  indeterminate value of \<open>c\<close>; on any other file it runs once more after the last byte
  and classifies that byte again in the state the scan is in. So, in a file of fewer than
  \<open>2^31 - 1\<close> bytes, a final byte that is read in state \<open>S_NORMAL\<close> or \<open>S_BOL\<close> and causes
  an incident there (a tab, a continuation byte, a control byte) increments its counter
  twice, and \<open>report\<close> writes the line at most once, for the first of the two increments;
  a final LF read in state \<open>S_NORMAL\<close>, \<open>S_BOL\<close> or \<open>S_CR\<close> increments the line counter
  twice, and in state \<open>S_CR\<close> the CR,LF counter once.
\<close>

theorem extra_iteration_after_last_byte:
  "scanLoop filename [] c s = classify filename c s
   \<and> (bs \<noteq> [] \<longrightarrow>
        scanLoop filename bs c s = Option.bind (feed filename bs s) (classify filename (last bs)))
   \<and> (feed filename pre (initial filename) = Some s1 \<and> ss s1 \<in> {S_NORMAL, S_BOL}
        \<and> length (pre @ [b]) < 2147483647 \<longrightarrow>
        scanLoop filename (pre @ [TAB]) c (initial filename) =
          Some (s1\<lparr>ss := S_NORMAL, tab_count := tab_count s1 + 2,
                   out := report (tab_count s1 + 1) ''Tab character'' filename
                            (line_count s1) (out s1)\<rparr>)
        \<and> (isUtf8Trailer t \<longrightarrow>
             scanLoop filename (pre @ [t]) c (initial filename) =
               Some (s1\<lparr>ss := S_NORMAL, bad_utf_count := bad_utf_count s1 + 2,
                        out := report (bad_utf_count s1 + 1) ''Bad multibyte sequence'' filename
                                 (line_count s1) (out s1)\<rparr>))
        \<and> (unat b < 0x20 \<and> b \<notin> {TAB, LF, CR} \<longrightarrow>
             scanLoop filename (pre @ [b]) c (initial filename) =
               Some (s1\<lparr>ss := S_NORMAL, c1_count := c1_count s1 + 2,
                        out := report (c1_count s1 + 1) ''Unexpected control character''
                                 filename (line_count s1) (out s1)\<rparr>)))
   \<and> (feed filename pre (initial filename) = Some s1 \<and> ss s1 \<in> {S_NORMAL, S_BOL} \<longrightarrow>
        scanLoop filename (pre @ [LF]) c (initial filename) =
          Some (s1\<lparr>line_count := line_count s1 + 2, ss := S_BOL\<rparr>))
   \<and> (feed filename pre (initial filename) = Some s1 \<and> ss s1 = S_CR \<longrightarrow>
        scanLoop filename (pre @ [LF]) c (initial filename) =
          Some (s1\<lparr>crlf_count := crlf_count s1 + 1,
                   out := report (crlf_count s1 + 1) ''Windows newline sequence (CR,LF)''
                            filename (line_count s1) (out s1),
                   line_count := line_count s1 + 2,
                   ss := S_BOL\<rparr>))"
proof -
  have 1: "scanLoop filename [] c s = classify filename c s" by simp
  have 2: "scanLoop filename bs c s =
      Option.bind (feed filename bs s) (classify filename (last bs))" if "bs \<noteq> []"
    using that by (simp add: scanLoop_feed)
  have split: "scanLoop filename (pre @ [x]) c (initial filename) = scanLoop filename [x] c s1"
    if "feed filename pre (initial filename) = Some s1" for x
    using that by (simp add: scanLoop_append)
  have room: "unat (tab_count s1) < 4294967294 \<and> unat (bad_utf_count s1) < 4294967294
      \<and> unat (c1_count s1) < 4294967294"
    if "feed filename pre (initial filename) = Some s1" "length (pre @ [b]) < 2147483647"
    using feed_counters_bounded[OF that(1)] that(2) by simp
  have 3: "scanLoop filename (pre @ [TAB]) c (initial filename) =
          Some (s1\<lparr>ss := S_NORMAL, tab_count := tab_count s1 + 2,
                   out := report (tab_count s1 + 1) ''Tab character'' filename
                            (line_count s1) (out s1)\<rparr>)"
    if "feed filename pre (initial filename) = Some s1" "ss s1 \<in> {S_NORMAL, S_BOL}"
      "length (pre @ [b]) < 2147483647"
    unfolding split[OF that(1)]
    by (rule final_TAB) (use that room[OF that(1,3)] in simp_all)
  have 4: "scanLoop filename (pre @ [t]) c (initial filename) =
               Some (s1\<lparr>ss := S_NORMAL, bad_utf_count := bad_utf_count s1 + 2,
                        out := report (bad_utf_count s1 + 1) ''Bad multibyte sequence'' filename
                                 (line_count s1) (out s1)\<rparr>)"
    if "feed filename pre (initial filename) = Some s1" "ss s1 \<in> {S_NORMAL, S_BOL}"
      "length (pre @ [b]) < 2147483647" "isUtf8Trailer t"
    unfolding split[OF that(1)]
    by (rule final_Trailer) (use that room[OF that(1,3)] in simp_all)
  have 5: "scanLoop filename (pre @ [b]) c (initial filename) =
               Some (s1\<lparr>ss := S_NORMAL, c1_count := c1_count s1 + 2,
                        out := report (c1_count s1 + 1) ''Unexpected control character''
                                 filename (line_count s1) (out s1)\<rparr>)"
    if "feed filename pre (initial filename) = Some s1" "ss s1 \<in> {S_NORMAL, S_BOL}"
      "length (pre @ [b]) < 2147483647" "unat b < 0x20" "b \<notin> {TAB, LF, CR}"
    unfolding split[OF that(1)]
    by (rule final_control) (use that room[OF that(1,3)] in simp_all)
  have 6: "scanLoop filename (pre @ [LF]) c (initial filename) =
             Some (s1\<lparr>line_count := line_count s1 + 2, ss := S_BOL\<rparr>)"
    if "feed filename pre (initial filename) = Some s1" "ss s1 \<in> {S_NORMAL, S_BOL}"
    unfolding split[OF that(1)] using that(2) by (rule final_LF)
  have 7: "scanLoop filename (pre @ [LF]) c (initial filename) =
          Some (s1\<lparr>crlf_count := crlf_count s1 + 1,
                   out := report (crlf_count s1 + 1) ''Windows newline sequence (CR,LF)''
                            filename (line_count s1) (out s1),
                   line_count := line_count s1 + 2,
                   ss := S_BOL\<rparr>)"
    if "feed filename pre (initial filename) = Some s1" "ss s1 = S_CR"
    unfolding split[OF that(1)] using that(2) by (rule final_CR_LF)
  from 1 2 3 4 5 6 7 show ?thesis by blast
qed

theorem extra_iteration_after_last_byte_witness:
  "scanLoop ''f'' [0x41, TAB] 0 (initial ''f'') =
     Some \<lparr>ss = S_NORMAL, line_count = 0, tab_count = 2, crlf_count = 0, cr_count = 0,
       c1_count = 0, bad_utf_count = 0,
       out = [Checking ''f'', ErrorLine ''f'' 1 ''Tab character'']\<rparr>
   \<and> scanLoop ''f'' [0x41, 0x80] 0 (initial ''f'') =
     Some \<lparr>ss = S_NORMAL, line_count = 0, tab_count = 0, crlf_count = 0, cr_count = 0,
       c1_count = 0, bad_utf_count = 2,
       out = [Checking ''f'', ErrorLine ''f'' 1 ''Bad multibyte sequence'']\<rparr>
   \<and> scanLoop ''f'' [0x41, 0x01] 0 (initial ''f'') =
     Some \<lparr>ss = S_NORMAL, line_count = 0, tab_count = 0, crlf_count = 0, cr_count = 0,
       c1_count = 2, bad_utf_count = 0,
       out = [Checking ''f'', ErrorLine ''f'' 1 ''Unexpected control character'']\<rparr>
   \<and> scanLoop ''f'' [0x41, LF] 0 (initial ''f'') =
     Some \<lparr>ss = S_BOL, line_count = 2, tab_count = 0, crlf_count = 0, cr_count = 0,
       c1_count = 0, bad_utf_count = 0, out = [Checking ''f'']\<rparr>
   \<and> scanLoop ''f'' [CR, LF] 0 (initial ''f'') =
     Some \<lparr>ss = S_BOL, line_count = 2, tab_count = 0, crlf_count = 1, cr_count = 0,
       c1_count = 0, bad_utf_count = 0,
       out = [Checking ''f'', ErrorLine ''f'' 1 ''Windows newline sequence (CR,LF)'']\<rparr>"
proof -
  have f: "feed ''f'' [0x41] (initial ''f'') = Some ((initial ''f'')\<lparr>ss := S_NORMAL\<rparr>)"
    by (simp add: classify_BOL initial_def normal_case_A)
  have g: "feed ''f'' [CR] (initial ''f'') = Some ((initial ''f'')\<lparr>ss := S_CR\<rparr>)"
    by (simp add: classify_BOL initial_def normal_case_CR)
  have h: "isUtf8Trailer 0x80" "unat (0x01 :: byte) < 0x20" "(0x01 :: byte) \<notin> {TAB, LF, CR}"
    by (simp_all add: utf_iffs TAB_def LF_def CR_def)
  from extra_iteration_after_last_byte[of "''f''" 0 "initial ''f''" "[]" "[0x41]"
      "(initial ''f'')\<lparr>ss := S_NORMAL\<rparr>" "0x01" "0x80"]
    extra_iteration_after_last_byte[of "''f''" 0 "initial ''f''" "[]" "[CR]"
      "(initial ''f'')\<lparr>ss := S_CR\<rparr>" "0x01" "0x80"] f g h
  show ?thesis by (simp add: initial_def report_def State_defs)
qed

text \<open>
  C10 as stated fails: in the file with the bytes \<open>A\<close>, CR, LF the final byte causes the
  CR,LF incident, and the counter of that incident is 1 at the end, not 2.
\<close>

theorem final_LF_of_CRLF_counted_once:
  "scanLoop ''f'' [0x41, CR, LF] 0 (initial ''f'') =
     Some \<lparr>ss = S_BOL, line_count = 2, tab_count = 0, crlf_count = 1, cr_count = 0,
       c1_count = 0, bad_utf_count = 0,
       out = [Checking ''f'', ErrorLine ''f'' 1 ''Windows newline sequence (CR,LF)'']\<rparr>"
  by (simp add: initial_def classify_BOL classify_NORMAL classify_CR_LF[unfolded LF_def]
        normal_case_def report_def LF_def CR_def TAB_def State_defs utf_iffs)

end
